theory Spec2Isabelle
  imports Complex_Main "HOL-Library.Product_Lexorder"
begin

section \<open>Exceptions\<close>

text \<open>
  The exceptions the three scripts can end with. \<open>SpiceyError\<close> is what every failing call
  of the SPICE toolkit raises.
\<close>

datatype py_error = ValueError | ZeroDivisionError | KeyError | MergeError | SpiceyError

section \<open>Coverage matcher (OPSWeb\_requester.py)\<close>

text \<open>
  Times are instants on the integer time line of pandas timestamps (a count of
  nanoseconds); a duration is an integer as well. The one-way light time of a pass is
  taken after \<open>pd.to_timedelta\<close>, as a duration.
\<close>

type_synonym timestamp = int
type_synonym timedelta = int

definition timedelta_minutes :: "int \<Rightarrow> timedelta" where
  "timedelta_minutes m = m * 60 * 1000000000"

definition timedelta_seconds :: "int \<Rightarrow> timedelta" where
  "timedelta_seconds s = s * 1000000000"

text \<open>
  The \<open>mspa\<close> column holds whatever the catalog's JSON held: a string, a boolean, or
  nothing (pandas stores NaN).
\<close>

datatype cell = Str string | Bool bool | NaN

record pass_rec =
  groundstation :: string
  time_start :: timestamp
  time_end :: timestamp
  owlt :: timedelta
  mspa :: cell

record pass_corr =
  c_groundstation :: string
  c_time_start :: timestamp
  c_time_end :: timestamp
  c_owlt :: timedelta
  c_mspa :: cell
  owlt_delta :: timedelta
  time_start_corr :: timestamp
  time_end_corr :: timestamp

record occ_rec =
  occ_time_start :: timestamp
  occ_time_end :: timestamp

record covered_rec =
  ingress :: timestamp
  egress :: timestamp

text \<open>\<open>df['groundstation'].isin(['KLZ', 'BLK'])\<close>\<close>

definition isin :: "string \<Rightarrow> string list \<Rightarrow> bool" where
  "isin s values = (s \<in> set values)"

text \<open>
  \<open>df['mspa'] != 'true'\<close>: Python's \<open>!=\<close> of a cell and a string. Only a string can
  be equal to a string.
\<close>

fun cell_ne :: "cell \<Rightarrow> string \<Rightarrow> bool" where
  "cell_ne (Str t) s = (t \<noteq> s)"
| "cell_ne (Bool b) s = True"
| "cell_ne NaN s = True"

text \<open>
  \<open>pd.DataFrame(passes).sort_values(by=['time_end', 'time_start'])\<close>. A catalogue
  without records gives a frame without columns, and \<open>sort_values\<close> raises
  \<open>KeyError\<close> on it.
\<close>

definition sort_values :: "pass_rec list \<Rightarrow> py_error + pass_rec list" where
  "sort_values passes =
     (if passes = [] then Inl KeyError
      else Inr (sort_key (\<lambda>p. (time_end p, time_start p)) passes))"

definition filter_groundstation :: "pass_rec list \<Rightarrow> pass_rec list" where
  "filter_groundstation ps = filter (\<lambda>p. \<not> isin (groundstation p) [''KLZ'', ''BLK'']) ps"

definition filter_mspa :: "pass_rec list \<Rightarrow> pass_rec list" where
  "filter_mspa ps = filter (\<lambda>p. cell_ne (mspa p) ''true'') ps"

definition apply_owlt :: "pass_rec \<Rightarrow> pass_corr" where
  "apply_owlt p =
     \<lparr> c_groundstation = groundstation p,
       c_time_start = time_start p,
       c_time_end = time_end p,
       c_owlt = owlt p,
       c_mspa = mspa p,
       owlt_delta = owlt p,
       time_start_corr = time_start p - owlt p,
       time_end_corr = time_end p - owlt p \<rparr>"

definition df_passes :: "pass_rec list \<Rightarrow> py_error + pass_corr list" where
  "df_passes passes =
     (case sort_values passes of
        Inl e \<Rightarrow> Inl e
      | Inr df \<Rightarrow> Inr (map apply_owlt (filter_mspa (filter_groundstation df))))"

text \<open>\<open>mask.any()\<close> of a boolean column.\<close>

fun series_any :: "bool list \<Rightarrow> bool" where
  "series_any [] = False"
| "series_any (b # bs) = (b \<or> series_any bs)"

definition mask_ing :: "timedelta \<Rightarrow> pass_corr list \<Rightarrow> occ_rec \<Rightarrow> bool list" where
  "mask_ing margin df occ_row =
     (let ing_time = occ_time_start occ_row;
          ing_start_req = ing_time - margin;
          ing_end_req = ing_time
      in map (\<lambda>p. time_start_corr p \<le> ing_start_req \<and> time_end_corr p \<ge> ing_end_req) df)"

definition mask_egr :: "timedelta \<Rightarrow> pass_corr list \<Rightarrow> occ_rec \<Rightarrow> bool list" where
  "mask_egr margin df occ_row =
     (let egr_time = occ_time_end occ_row;
          egr_start_req = egr_time;
          egr_end_req = egr_time + margin
      in map (\<lambda>p. time_start_corr p \<le> egr_start_req \<and> time_end_corr p \<ge> egr_end_req) df)"

text \<open>The test of the loop body, for one occultation row.\<close>

definition is_covered :: "timedelta \<Rightarrow> pass_corr list \<Rightarrow> occ_rec \<Rightarrow> bool" where
  "is_covered margin df occ_row =
     (series_any (mask_ing margin df occ_row) \<and> series_any (mask_egr margin df occ_row))"

text \<open>The loop over the occultation rows, with the margin of ten minutes.\<close>

fun covered :: "pass_corr list \<Rightarrow> occ_rec list \<Rightarrow> covered_rec list" where
  "covered df [] = []"
| "covered df (occ_row # rest) =
     (if is_covered (timedelta_minutes 10) df occ_row
      then \<lparr> ingress = occ_time_start occ_row, egress = occ_time_end occ_row \<rparr> # covered df rest
      else covered df rest)"

section \<open>Event aligner (covered\_occultations.py)\<close>

text \<open>A row of \<open>Occultations_spice.txt\<close>, the wide table of the scan.\<close>

record spice_row =
  Ingress_UTC :: timestamp
  Ingress_Lat :: real
  Ingress_Lon :: real
  Ingress_SZA :: real
  Ingress_Ls :: real
  Egress_UTC :: timestamp
  Egress_Lat :: real
  Egress_Lon :: real
  Egress_SZA :: real
  Egress_Ls :: real




text \<open>
  \<open>pd.merge_asof\<close> with \<open>direction='nearest'\<close> and a tolerance. For each left key pandas
  runs a backward search (the last right key that is \<open>\<le>\<close> the left key) and a forward
  search (the first right key that is \<open>\<ge>\<close> the left key), drops a candidate that is
  farther away than the tolerance, and keeps the nearer of the two, the backward one on a
  tie. The result of a search is a position in the right table, or nothing (pandas: -1).
\<close>

definition asof_backward :: "timestamp list \<Rightarrow> timestamp \<Rightarrow> timedelta \<Rightarrow> nat option" where
  "asof_backward right_values l tolerance =
     (let right_pos = length (takeWhile (\<lambda>r. r \<le> l) right_values)
      in if right_pos = 0 then None
         else if l - right_values ! (right_pos - 1) > tolerance then None
         else Some (right_pos - 1))"

definition asof_forward :: "timestamp list \<Rightarrow> timestamp \<Rightarrow> timedelta \<Rightarrow> nat option" where
  "asof_forward right_values l tolerance =
     (let right_size = length right_values;
          right_pos = right_size - length (takeWhile (\<lambda>r. r \<ge> l) (rev right_values))
      in if right_pos = right_size then None
         else if right_values ! right_pos - l > tolerance then None
         else Some right_pos)"

definition asof_nearest :: "timestamp list \<Rightarrow> timestamp \<Rightarrow> timedelta \<Rightarrow> nat option" where
  "asof_nearest right_values l tolerance =
     (case (asof_backward right_values l tolerance, asof_forward right_values l tolerance) of
        (Some bi, Some fi) \<Rightarrow>
          Some (if (l - right_values ! bi) - (right_values ! fi - l) \<le> 0 then bi else fi)
      | (Some bi, None) \<Rightarrow> Some bi
      | (None, fo) \<Rightarrow> fo)"

text \<open>
  A merged row is the left row with the matched right row, or with nothing (the right
  columns are NaT). pandas refuses a negative tolerance and keys that are not sorted.
\<close>

definition merge_asof ::
  "spice_row list \<Rightarrow> covered_rec list \<Rightarrow> timedelta \<Rightarrow> py_error + (spice_row \<times> covered_rec option) list"
where
  "merge_asof left right tolerance =
     (if tolerance < 0 then Inl MergeError
      else if \<not> sorted (map Ingress_UTC left) then Inl ValueError
      else if \<not> sorted (map ingress right) then Inl ValueError
      else Inr (map (\<lambda>l. (l, map_option (\<lambda>i. right ! i)
                               (asof_nearest (map ingress right) (Ingress_UTC l) tolerance)))
                    left))"

text \<open>\<open>merged.dropna(subset=['ingress'])\<close>\<close>

definition dropna :: "(spice_row \<times> covered_rec option) list \<Rightarrow> (spice_row \<times> covered_rec) list" where
  "dropna rows = map (\<lambda>(l, r). (l, the r)) (filter (\<lambda>(l, r). r \<noteq> None) rows)"

definition merged ::
  "spice_row list \<Rightarrow> covered_rec list \<Rightarrow> timedelta \<Rightarrow> py_error + (spice_row \<times> covered_rec) list"
where
  "merged left right tolerance =
     (case merge_asof left right tolerance of
        Inl e \<Rightarrow> Inl e
      | Inr rows \<Rightarrow> Inr (dropna rows))"



section \<open>Double-precision numbers\<close>

text \<open>
  Python floats and numpy's \<open>float64\<close> are binary floating-point numbers with a
  significand of 53 bits. A double is modelled as the real number it denotes, and an
  operation on doubles as the exact operation followed by rounding to the nearest double,
  a tie going to the even significand. The range of the exponent is not bounded: overflow
  to infinity and subnormal numbers are outside the model.
\<close>

definition round_half_even :: "real \<Rightarrow> int" where
  "round_half_even x =
     (let f = \<lfloor>x\<rfloor>; r = x - of_int f
      in if r < 1 / 2 then f
         else if 1 / 2 < r then f + 1
         else if even f then f else f + 1)"

definition exponent :: "real \<Rightarrow> int" where
  "exponent x = \<lfloor>log 2 \<bar>x\<bar>\<rfloor>"

definition ulp :: "real \<Rightarrow> real" where
  "ulp x = 2 powi (exponent x - 52)"

definition to_double :: "real \<Rightarrow> real" where
  "to_double x = (if x = 0 then 0 else of_int (round_half_even (x / ulp x)) * ulp x)"

text \<open>The four operations of double arithmetic.\<close>

definition fadd :: "real \<Rightarrow> real \<Rightarrow> real" where
  "fadd x y = to_double (x + y)"

definition fsub :: "real \<Rightarrow> real \<Rightarrow> real" where
  "fsub x y = to_double (x - y)"

definition fmul :: "real \<Rightarrow> real \<Rightarrow> real" where
  "fmul x y = to_double (x * y)"

definition fdiv :: "real \<Rightarrow> real \<Rightarrow> real" where
  "fdiv x y = to_double (x / y)"

section \<open>Crossing detector (Occ\_times\_spice\_parallel.py)\<close>

text \<open>
  Ephemeris times, distances and angles are doubles, taken as the real numbers they
  denote. The epoch list is computed in double arithmetic; the norm, the conversions to
  degrees and the remainder are taken without rounding. The SPICE toolkit is a record
  of the functions the script calls; a call that raises \<open>SpiceyError\<close> returns
  \<open>None\<close>. \<open>tangpt\<close> gives the first component of the toolkit's result, the
  tangent point; \<open>vsep\<close> and \<open>reclat\<close> never raise.
\<close>

type_synonym vec = "real \<times> real \<times> real"

record spice =
  spkpos :: "string \<Rightarrow> real \<Rightarrow> string \<Rightarrow> string \<Rightarrow> string \<Rightarrow> vec option"
  tangpt :: "string \<Rightarrow> string \<Rightarrow> real \<Rightarrow> string \<Rightarrow> string \<Rightarrow> string \<Rightarrow> string \<Rightarrow> string \<Rightarrow> vec
             \<Rightarrow> vec option"
  vsep :: "vec \<Rightarrow> vec \<Rightarrow> real"
  reclat :: "vec \<Rightarrow> real \<times> real \<times> real"
  lspcn :: "string \<Rightarrow> real \<Rightarrow> string \<Rightarrow> real option"
  et2utc :: "real \<Rightarrow> string \<Rightarrow> nat \<Rightarrow> string option"

definition mars_id :: string where "mars_id = ''MARS''"
definition frame :: string where "frame = ''IAU_MARS''"
definition tgo_hga_id :: string where "tgo_hga_id = ''-143025''"
definition earth_id :: string where "earth_id = ''399''"

definition MARS_RADIUS :: real where
  "MARS_RADIUS = 3397515 / 1000"

text \<open>\<open>np.linalg.norm\<close> of a vector, \<open>np.rad2deg\<close> and \<open>np.degrees\<close>.\<close>

fun linalg_norm :: "vec \<Rightarrow> real" where
  "linalg_norm (x, y, z) = sqrt (x\<^sup>2 + y\<^sup>2 + z\<^sup>2)"

definition rad2deg :: "real \<Rightarrow> real" where
  "rad2deg r = r * 180 / pi"

definition degrees :: "real \<Rightarrow> real" where
  "degrees r = r * 180 / pi"

text \<open>Python's \<open>x % 360\<close> on a float.\<close>

definition mod360 :: "real \<Rightarrow> real" where
  "mod360 x = x - 360 * of_int \<lfloor>x / 360\<rfloor>"

text \<open>A sample is the tuple \<open>(et, ip, tanpt, sza)\<close>.\<close>

type_synonym sample = "real \<times> real \<times> vec \<times> real"

definition compute_tangent_params :: "spice \<Rightarrow> real \<Rightarrow> string \<Rightarrow> sample option" where
  "compute_tangent_params sp et gs_id =
     (case spkpos sp gs_id et frame ''CN+S'' tgo_hga_id of
        None \<Rightarrow> None
      | Some ray \<Rightarrow>
         (case tangpt sp ''ELLIPSOID'' ''MARS'' et frame ''CN+S'' ''TANGENT POINT''
                 tgo_hga_id frame ray of
            None \<Rightarrow> None
          | Some tanpt \<Rightarrow>
             (let ip = linalg_norm tanpt
              in case spkpos sp ''SUN'' et frame ''NONE'' mars_id of
                   None \<Rightarrow> None
                 | Some sun_vec \<Rightarrow>
                     (let sza = rad2deg (vsep sp sun_vec tanpt)
                      in Some (et, ip, tanpt, sza)))))"

text \<open>
  \<open>np.arange(start, stop, step)\<close> on floats. The arguments are taken as doubles. numpy
  fixes the length first, as the ceiling of \<open>(stop - start) / step\<close> in double
  arithmetic, where a step of zero raises \<open>ZeroDivisionError\<close>; a length that is not
  positive gives the empty array. It then stores \<open>start\<close> and \<open>start + step\<close> and fills
  the rest with \<open>start + i * delta\<close>, where \<open>delta\<close> is the difference of the first
  two values, all in double arithmetic.
\<close>

definition arange_item :: "real \<Rightarrow> real \<Rightarrow> nat \<Rightarrow> real" where
  "arange_item start_d step_d i =
     (let next_d = fadd start_d step_d;
          delta = fsub next_d start_d
      in if i = 0 then start_d
         else if i = 1 then next_d
         else fadd start_d (fmul (to_double (of_nat i)) delta))"

definition np_arange :: "real \<Rightarrow> real \<Rightarrow> real \<Rightarrow> py_error + real list" where
  "np_arange start stop step =
     (let start_d = to_double start;
          stop_d = to_double stop;
          step_d = to_double step
      in if step_d = 0 then Inl ZeroDivisionError
         else
          (let len = \<lceil>fdiv (fsub stop_d start_d) step_d\<rceil>
           in if len \<le> 0 then Inr []
              else Inr (map (arange_item start_d step_d) [0..<nat len])))"

text \<open>
  \<open>executor.map(worker, et_list, chunksize=500)\<close>: the results come back in the order of
  \<open>et_list\<close>, whatever the workers and the chunks.
\<close>

definition executor_map :: "(real \<Rightarrow> sample option) \<Rightarrow> real list \<Rightarrow> sample option list" where
  "executor_map worker et_list = map worker et_list"

text \<open>\<open>[r for r in results if r]\<close>: a tuple of four is true, \<open>None\<close> is false.\<close>

definition valid_of :: "sample option list \<Rightarrow> sample list" where
  "valid_of results = map the (filter (\<lambda>r. r \<noteq> None) results)"

text \<open>
  The two masks over the adjacent pairs \<open>(ip[:-1], ip[1:])\<close>, and
  \<open>np.where(mask)[0] + 1\<close>.
\<close>

definition ing_mask :: "real \<Rightarrow> real list \<Rightarrow> bool list" where
  "ing_mask radius impact_params =
     map (\<lambda>(a, b). a > radius \<and> b \<le> radius) (zip (butlast impact_params) (tl impact_params))"

definition egr_mask :: "real \<Rightarrow> real list \<Rightarrow> bool list" where
  "egr_mask radius impact_params =
     map (\<lambda>(a, b). a \<le> radius \<and> b > radius) (zip (butlast impact_params) (tl impact_params))"

definition where_plus_1 :: "bool list \<Rightarrow> nat list" where
  "where_plus_1 msk = map (\<lambda>i. i + 1) (filter (\<lambda>i. msk ! i) [0..<length msk])"

text \<open>The inner loop: one tuple for each index, in the order of the indices.\<close>

type_synonym event_tuple = "real \<times> real \<times> real \<times> real \<times> real"

fun events_at ::
  "spice \<Rightarrow> real list \<Rightarrow> vec list \<Rightarrow> real list \<Rightarrow> nat list \<Rightarrow> event_tuple list option"
where
  "events_at sp et_vals tanpts szas [] = Some []"
| "events_at sp et_vals tanpts szas (idx # rest) =
     (let t_et = et_vals ! idx;
          (r, lon, lat) = reclat sp (tanpts ! idx);
          sza = szas ! idx
      in case lspcn sp ''MARS'' t_et ''LT+S'' of
           None \<Rightarrow> None
         | Some ls \<Rightarrow>
            (let ls_deg = mod360 (degrees ls)
             in case events_at sp et_vals tanpts szas rest of
                  None \<Rightarrow> None
                | Some out \<Rightarrow> Some ((t_et, degrees lon, degrees lat, sza, ls_deg) # out)))"

text \<open>A row of a returned table: the five columns and the UTC column.\<close>

record event =
  ET :: real
  Longitude :: real
  Latitude :: real
  SZA :: real
  Ls :: real
  UTC :: string

fun data_frame :: "spice \<Rightarrow> event_tuple list \<Rightarrow> event list option" where
  "data_frame sp [] = Some []"
| "data_frame sp ((t, lon, lat, sza, ls) # rows) =
     (case et2utc sp t ''ISOC'' 3 of
        None \<Rightarrow> None
      | Some u \<Rightarrow>
         (case data_frame sp rows of
            None \<Rightarrow> None
          | Some df \<Rightarrow>
              Some (\<lparr> ET = t, Longitude = lon, Latitude = lat, SZA = sza, Ls = ls, UTC = u \<rparr> # df)))"

text \<open>
  The function after \<open>et_list\<close> is built. Unpacking \<open>zip(*valid)\<close> into four names
  raises \<open>ValueError\<close> when \<open>valid\<close> is empty; a \<open>SpiceyError\<close> of \<open>lspcn\<close> or
  \<open>et2utc\<close> is not caught.
\<close>

definition scan :: "spice \<Rightarrow> string \<Rightarrow> real list \<Rightarrow> py_error + (event list \<times> event list)" where
  "scan sp gs_id et_list =
     (let results = executor_map (\<lambda>et. compute_tangent_params sp et gs_id) et_list;
          valid = valid_of results
      in if valid = [] then Inl ValueError
         else
          (let et_vals = map (\<lambda>(et, ip, tanpt, sza). et) valid;
               impact_params = map (\<lambda>(et, ip, tanpt, sza). ip) valid;
               tanpts = map (\<lambda>(et, ip, tanpt, sza). tanpt) valid;
               szas = map (\<lambda>(et, ip, tanpt, sza). sza) valid
           in case events_at sp et_vals tanpts szas
                     (where_plus_1 (ing_mask MARS_RADIUS impact_params)) of
                None \<Rightarrow> Inl SpiceyError
              | Some ingress_rows \<Rightarrow>
                 (case events_at sp et_vals tanpts szas
                         (where_plus_1 (egr_mask MARS_RADIUS impact_params)) of
                    None \<Rightarrow> Inl SpiceyError
                  | Some egress_rows \<Rightarrow>
                     (case data_frame sp ingress_rows of
                        None \<Rightarrow> Inl SpiceyError
                      | Some df_ing \<Rightarrow>
                         (case data_frame sp egress_rows of
                            None \<Rightarrow> Inl SpiceyError
                          | Some df_egr \<Rightarrow> Inr (df_ing, df_egr))))))"

text \<open>A pool of fewer than one worker is refused with \<open>ValueError\<close>.\<close>

definition find_occultations_parallel ::
  "spice \<Rightarrow> string \<Rightarrow> real \<Rightarrow> real \<Rightarrow> real \<Rightarrow> int \<Rightarrow> py_error + (event list \<times> event list)"
where
  "find_occultations_parallel sp gs_id start_et end_et step n_procs =
     (case np_arange start_et end_et step of
        Inl e \<Rightarrow> Inl e
      | Inr et_list \<Rightarrow>
          if n_procs \<le> 0 then Inl ValueError
          else scan sp gs_id et_list)"

text \<open>
  A toolkit to evaluate the scan on: the position of the ground station is not available at
  epoch 2, and the tangent point lies inside the radius at the epochs 1 and 4 and outside at
  every other epoch.
\<close>

definition example_spice :: spice where
  "example_spice =
     \<lparr> spkpos = (\<lambda>targ et ref abcorr obs.
                   if targ = ''399'' \<and> et = 2 then None else Some (1, 0, 0)),
       tangpt = (\<lambda>method target et fixref abcorr corloc obsrvr dref dvec.
                   Some (if et = 1 \<or> et = 4 then (3000, 0, 0) else (4000, 0, 0))),
       vsep = (\<lambda>a b. 0),
       reclat = (\<lambda>v. (linalg_norm v, 0, 0)),
       lspcn = (\<lambda>body t abcorr. Some 0),
       et2utc = (\<lambda>t fmt prec. Some ''UTC'') \<rparr>"

section \<open>Properties of the coverage matcher\<close>

lemma series_any_iff: "series_any bs \<longleftrightarrow> True \<in> set bs"
  by (induction bs) auto

lemma is_covered_iff:
  "is_covered margin df occ_row \<longleftrightarrow>
     (\<exists>p \<in> set df. time_start_corr p \<le> occ_time_start occ_row - margin
                  \<and> time_end_corr p \<ge> occ_time_start occ_row)
   \<and> (\<exists>q \<in> set df. time_start_corr q \<le> occ_time_end occ_row
                  \<and> time_end_corr q \<ge> occ_time_end occ_row + margin)"
  by (auto simp: is_covered_def mask_ing_def mask_egr_def series_any_iff Let_def)

lemma df_passes_returns:
  "passes \<noteq> [] \<Longrightarrow>
     df_passes passes =
       Inr (map apply_owlt (filter_mspa (filter_groundstation
              (sort_key (\<lambda>p. (time_end p, time_start p)) passes))))"
  by (simp add: df_passes_def sort_values_def)

lemma df_passes_empty: "df_passes [] = Inl KeyError"
  by (simp add: df_passes_def sort_values_def)

lemma set_df_passes:
  assumes "df_passes passes = Inr df"
  shows "set df =
     apply_owlt ` {p \<in> set passes. groundstation p \<notin> {''KLZ'', ''BLK''} \<and> mspa p \<noteq> Str ''true''}"
proof -
  have ne: "cell_ne c ''true'' \<longleftrightarrow> c \<noteq> Str ''true''" for c
    by (cases c) auto
  from assms have "passes \<noteq> []"
    by (auto simp: df_passes_empty)
  from df_passes_returns [OF this] assms
  have "df = map apply_owlt (filter_mspa (filter_groundstation
              (sort_key (\<lambda>p. (time_end p, time_start p)) passes)))"
    by simp
  then show ?thesis
    by (auto simp: filter_mspa_def filter_groundstation_def isin_def ne)
qed

lemma covered_set:
  "set (covered df occs) =
     (\<lambda>r. \<lparr> ingress = occ_time_start r, egress = occ_time_end r \<rparr>) `
       {r \<in> set occs. is_covered (timedelta_minutes 10) df r}"
  by (induction occs) auto

text \<open>
  Claim C1. For every occultation window, every list of candidate passes and every margin,
  \<open>is_covered\<close> is true exactly when some pass has a corrected interval that contains
  the ingress margin interval \<open>[ingress - margin, ingress]\<close> and some pass, possibly
  another one, has a corrected interval that contains the egress margin interval
  \<open>[egress, egress + margin]\<close>.
\<close>

theorem is_covered_containment:
  "is_covered margin df w \<longleftrightarrow>
     (\<exists>p \<in> set df. time_start_corr p \<le> occ_time_start w - margin
                  \<and> time_end_corr p \<ge> occ_time_start w)
   \<and> (\<exists>q \<in> set df. time_start_corr q \<le> occ_time_end w
                  \<and> time_end_corr q \<ge> occ_time_end w + margin)"
  by (rule is_covered_iff)

theorem is_covered_containment_witness:
  "is_covered (timedelta_minutes 10)
     [\<lparr> c_groundstation = ''ABC'', c_time_start = timedelta_minutes (-15),
        c_time_end = timedelta_minutes 15, c_owlt = 0, c_mspa = Str ''false'', owlt_delta = 0,
        time_start_corr = timedelta_minutes (-15), time_end_corr = timedelta_minutes 15 \<rparr>]
     \<lparr> occ_time_start = 0, occ_time_end = 0 \<rparr>
   \<and> \<not> is_covered (timedelta_minutes 10)
     [\<lparr> c_groundstation = ''ABC'', c_time_start = timedelta_minutes (-5),
        c_time_end = timedelta_minutes 5, c_owlt = 0, c_mspa = Str ''false'', owlt_delta = 0,
        time_start_corr = timedelta_minutes (-5), time_end_corr = timedelta_minutes 5 \<rparr>]
     \<lparr> occ_time_start = 0, occ_time_end = 0 \<rparr>"
  using is_covered_containment [of "timedelta_minutes 10"
     "[\<lparr> c_groundstation = ''ABC'', c_time_start = timedelta_minutes (-15),
        c_time_end = timedelta_minutes 15, c_owlt = 0, c_mspa = Str ''false'', owlt_delta = 0,
        time_start_corr = timedelta_minutes (-15), time_end_corr = timedelta_minutes 15 \<rparr>]"
     "\<lparr> occ_time_start = 0, occ_time_end = 0 \<rparr>"]
    is_covered_containment [of "timedelta_minutes 10"
     "[\<lparr> c_groundstation = ''ABC'', c_time_start = timedelta_minutes (-5),
        c_time_end = timedelta_minutes 5, c_owlt = 0, c_mspa = Str ''false'', owlt_delta = 0,
        time_start_corr = timedelta_minutes (-5), time_end_corr = timedelta_minutes 5 \<rparr>]"
     "\<lparr> occ_time_start = 0, occ_time_end = 0 \<rparr>"]
  by (simp add: timedelta_minutes_def)




text \<open>
  Claim C10. The mspa filter removes a pass exactly when its mspa field is the string
  \<open>'true'\<close>. A pass of an admitted ground station whose field is missing (NaN), a
  boolean, or another spelling such as \<open>'True'\<close> or \<open>'TRUE'\<close> stays a candidate,
  and covers a window whose two margin intervals lie in its corrected interval.
\<close>

theorem mspa_only_exact_true_removed:
  "(p \<in> set (filter_mspa ps) \<longleftrightarrow> p \<in> set ps \<and> mspa p \<noteq> Str ''true'')
   \<and> (p \<in> set ps \<and> groundstation p \<notin> {''KLZ'', ''BLK''}
        \<and> mspa p \<in> {NaN, Bool True, Bool False, Str ''True'', Str ''TRUE''}
      \<longrightarrow> (\<exists>df. df_passes ps = Inr df \<and> apply_owlt p \<in> set df))
   \<and> (p \<in> set ps \<and> groundstation p \<notin> {''KLZ'', ''BLK''} \<and> mspa p \<noteq> Str ''true''
        \<and> time_start p - owlt p \<le> occ_time_start w - margin
        \<and> time_end p - owlt p \<ge> occ_time_start w
        \<and> time_start p - owlt p \<le> occ_time_end w
        \<and> time_end p - owlt p \<ge> occ_time_end w + margin
      \<longrightarrow> (\<exists>df. df_passes ps = Inr df \<and> apply_owlt p \<in> set df \<and> is_covered margin df w))"
proof (intro conjI impI)
  have ne: "cell_ne c ''true'' \<longleftrightarrow> c \<noteq> Str ''true''" for c
    by (cases c) auto
  show "p \<in> set (filter_mspa ps) \<longleftrightarrow> p \<in> set ps \<and> mspa p \<noteq> Str ''true''"
    by (simp add: filter_mspa_def ne)
  have kept: "\<exists>df. df_passes ps = Inr df \<and> apply_owlt p \<in> set df"
    if "p \<in> set ps" "groundstation p \<notin> {''KLZ'', ''BLK''}" "mspa p \<noteq> Str ''true''"
  proof -
    from that(1) have "ps \<noteq> []" by auto
    from df_passes_returns [OF this] obtain df where d: "df_passes ps = Inr df" by blast
    have "apply_owlt p \<in> set df"
      unfolding set_df_passes [OF d] using that by blast
    with d show ?thesis by blast
  qed
  show "\<exists>df. df_passes ps = Inr df \<and> apply_owlt p \<in> set df"
    if "p \<in> set ps \<and> groundstation p \<notin> {''KLZ'', ''BLK''}
        \<and> mspa p \<in> {NaN, Bool True, Bool False, Str ''True'', Str ''TRUE''}"
    using that by (intro kept) auto
  show "\<exists>df. df_passes ps = Inr df \<and> apply_owlt p \<in> set df \<and> is_covered margin df w"
    if h: "p \<in> set ps \<and> groundstation p \<notin> {''KLZ'', ''BLK''} \<and> mspa p \<noteq> Str ''true''
        \<and> time_start p - owlt p \<le> occ_time_start w - margin
        \<and> time_end p - owlt p \<ge> occ_time_start w
        \<and> time_start p - owlt p \<le> occ_time_end w
        \<and> time_end p - owlt p \<ge> occ_time_end w + margin"
  proof -
    from h kept obtain df where d: "df_passes ps = Inr df" and m: "apply_owlt p \<in> set df"
      by blast
    have c: "time_start_corr (apply_owlt p) = time_start p - owlt p"
       "time_end_corr (apply_owlt p) = time_end p - owlt p"
      by (simp_all add: apply_owlt_def)
    have "is_covered margin df w"
      unfolding is_covered_iff using m h c by metis
    with d m show ?thesis by blast
  qed
qed

theorem mspa_only_exact_true_removed_witness:
  "(\<exists>df. df_passes [\<lparr> groundstation = ''ABC'', time_start = 0, time_end = timedelta_minutes 30,
                   owlt = 0, mspa = Bool True \<rparr>] = Inr df
      \<and> apply_owlt \<lparr> groundstation = ''ABC'', time_start = 0, time_end = timedelta_minutes 30,
                   owlt = 0, mspa = Bool True \<rparr> \<in> set df
      \<and> is_covered (timedelta_minutes 10) df
          \<lparr> occ_time_start = timedelta_minutes 10, occ_time_end = timedelta_minutes 20 \<rparr>)
   \<and> (\<exists>df. df_passes [\<lparr> groundstation = ''ABC'', time_start = 0, time_end = timedelta_minutes 30,
                   owlt = 0, mspa = NaN \<rparr>] = Inr df
      \<and> is_covered (timedelta_minutes 10) df
          \<lparr> occ_time_start = timedelta_minutes 10, occ_time_end = timedelta_minutes 20 \<rparr>)
   \<and> (\<exists>df. df_passes [\<lparr> groundstation = ''ABC'', time_start = 0, time_end = timedelta_minutes 30,
                   owlt = 0, mspa = Str ''True'' \<rparr>] = Inr df
      \<and> is_covered (timedelta_minutes 10) df
          \<lparr> occ_time_start = timedelta_minutes 10, occ_time_end = timedelta_minutes 20 \<rparr>)"
proof -
  let ?w = "\<lparr> occ_time_start = timedelta_minutes 10, occ_time_end = timedelta_minutes 20 \<rparr>"
  let ?p = "\<lambda>c. \<lparr> groundstation = ''ABC'', time_start = 0, time_end = timedelta_minutes 30,
                   owlt = 0, mspa = c \<rparr>"
  have a: "\<exists>df. df_passes [?p c] = Inr df \<and> apply_owlt (?p c) \<in> set df
              \<and> is_covered (timedelta_minutes 10) df ?w"
    if "c \<noteq> Str ''true''" for c
    using mspa_only_exact_true_removed [of "?p c" "[?p c]" ?w "timedelta_minutes 10"] that
    by (simp add: timedelta_minutes_def)
  show ?thesis
    using a [of "Bool True"] a [of NaN] a [of "Str ''True''"] by blast
qed

section \<open>Properties of the event aligner\<close>

lemma asof_backward_Some:
  assumes "sorted rs" "asof_backward rs l tol = Some i"
  shows "i < length rs \<and> rs ! i \<le> l \<and> l - rs ! i \<le> tol \<and> (\<forall>r \<in> set rs. r \<le> l \<longrightarrow> r \<le> rs ! i)"
proof -
  let ?tw = "takeWhile (\<lambda>r. r \<le> l) rs"
  let ?pos = "length ?tw"
  from assms(2) have pos: "?pos \<noteq> 0" and i: "i = ?pos - 1" and tol: "l - rs ! i \<le> tol"
    by (auto simp: asof_backward_def Let_def split: if_splits)
  have len: "?pos \<le> length rs" by (rule length_takeWhile_le)
  from pos i len have ilt: "i < length rs" "i < ?pos" by arith+
  have "?tw ! i = rs ! i" using ilt(2) by (rule takeWhile_nth)
  moreover have "?tw ! i \<in> set ?tw" using ilt(2) by simp
  ultimately have le: "rs ! i \<le> l" by (metis (mono_tags, lifting) set_takeWhileD)
  have "r \<le> rs ! i" if r: "r \<in> set rs" "r \<le> l" for r
  proof -
    from r(1) obtain j where j: "j < length rs" "rs ! j = r" by (auto simp: in_set_conv_nth)
    show ?thesis
    proof (cases "j \<le> i")
      case True
      then show ?thesis using assms(1) j ilt(1) by (metis sorted_nth_mono)
    next
      case False
      then have pj: "?pos \<le> j" using i pos by arith
      then have "?pos < length rs" using j by auto
      then have "\<not> rs ! ?pos \<le> l" by (rule nth_length_takeWhile)
      moreover have "rs ! ?pos \<le> rs ! j" using assms(1) pj j by (metis sorted_nth_mono)
      ultimately show ?thesis using r(2) j by auto
    qed
  qed
  then show ?thesis using ilt le tol by blast
qed

lemma asof_backward_None:
  assumes "sorted rs" "asof_backward rs l tol = None" "r \<in> set rs" "r \<le> l"
  shows "l - r > tol"
proof -
  let ?tw = "takeWhile (\<lambda>r. r \<le> l) rs"
  let ?pos = "length ?tw"
  have pos: "?pos \<noteq> 0"
  proof
    assume "?pos = 0"
    then have "?tw = []" by simp
    then have "rs = [] \<or> \<not> hd rs \<le> l" by (simp add: takeWhile_eq_Nil_iff)
    with assms(3) have h: "rs \<noteq> []" "\<not> hd rs \<le> l" by auto
    from assms(3) obtain j where j: "j < length rs" "rs ! j = r" by (auto simp: in_set_conv_nth)
    have "rs ! 0 \<le> rs ! j" using assms(1) j by (metis sorted_nth_mono le0)
    then show False using h assms(4) j by (simp add: hd_conv_nth)
  qed
  from pos assms(2) have far: "l - rs ! (?pos - 1) > tol"
    by (auto simp: asof_backward_def Let_def split: if_splits)
  have ex: "asof_backward rs l (l - rs ! (?pos - 1)) = Some (?pos - 1)"
    using pos by (simp add: asof_backward_def Let_def)
  from asof_backward_Some [OF assms(1) ex] assms(3,4) have "r \<le> rs ! (?pos - 1)" by blast
  with far show ?thesis by linarith
qed

lemma asof_forward_Some:
  assumes "sorted rs" "asof_forward rs l tol = Some i"
  shows "i < length rs \<and> l \<le> rs ! i \<and> rs ! i - l \<le> tol \<and> (\<forall>r \<in> set rs. l \<le> r \<longrightarrow> rs ! i \<le> r)"
proof -
  let ?tw = "takeWhile (\<lambda>r. r \<ge> l) (rev rs)"
  let ?k = "length ?tw"
  let ?n = "length rs"
  have kn: "?k \<le> ?n" using length_takeWhile_le [of "\<lambda>r. r \<ge> l" "rev rs"] by simp
  from assms(2) have i: "i = ?n - ?k" and ne: "?n - ?k \<noteq> ?n" and tol: "rs ! i - l \<le> tol"
    by (auto simp: asof_forward_def Let_def split: if_splits)
  from ne kn have k0: "0 < ?k" and n0: "0 < ?n" by arith+
  from i kn k0 have ilt: "i < ?n" by arith
  have idx: "?n - 1 - i < ?k" using i kn k0 by arith
  have "?tw ! (?n - 1 - i) = rev rs ! (?n - 1 - i)" using idx by (rule takeWhile_nth)
  also have "\<dots> = rs ! i" using ilt by (simp add: rev_nth)
  finally have "rs ! i \<in> set ?tw" using idx by (metis nth_mem)
  then have ge: "l \<le> rs ! i" by (metis (mono_tags, lifting) set_takeWhileD)
  have "rs ! i \<le> r" if r: "r \<in> set rs" "l \<le> r" for r
  proof -
    from r(1) obtain j where j: "j < ?n" "rs ! j = r" by (auto simp: in_set_conv_nth)
    show ?thesis
    proof (cases "i \<le> j")
      case True
      then show ?thesis using assms(1) j by (metis sorted_nth_mono)
    next
      case False
      then have ji: "j < i" by simp
      then have klt: "?k < length (rev rs)" using i kn by simp
      then have "\<not> l \<le> rev rs ! ?k" by (rule nth_length_takeWhile)
      moreover have "rev rs ! ?k = rs ! (i - 1)" using klt i ji by (simp add: rev_nth)
      moreover have "rs ! j \<le> rs ! (i - 1)" using assms(1) ji ilt by (metis sorted_nth_mono Suc_pred' less_Suc_eq_le less_imp_diff_less less_nat_zero_code not_gr_zero)
      ultimately show ?thesis using r(2) j by auto
    qed
  qed
  then show ?thesis using ilt ge tol by blast
qed


lemma asof_forward_None:
  assumes "sorted rs" "asof_forward rs l tol = None" "r \<in> set rs" "l \<le> r"
  shows "r - l > tol"
proof -
  let ?tw = "takeWhile (\<lambda>r. r \<ge> l) (rev rs)"
  let ?k = "length ?tw"
  let ?n = "length rs"
  have kn: "?k \<le> ?n" using length_takeWhile_le [of "\<lambda>r. r \<ge> l" "rev rs"] by simp
  from assms(3) have n0: "rs \<noteq> []" by auto
  have k0: "?k \<noteq> 0"
  proof
    assume "?k = 0"
    then have "?tw = []" by simp
    then have "rev rs = [] \<or> \<not> l \<le> hd (rev rs)" by (simp add: takeWhile_eq_Nil_iff)
    with n0 have h: "\<not> l \<le> last rs" by (simp add: hd_rev)
    from assms(3) obtain j where j: "j < ?n" "rs ! j = r" by (auto simp: in_set_conv_nth)
    have "rs ! j \<le> rs ! (?n - 1)" using assms(1) j by (intro sorted_nth_mono) auto
    then show False using h assms(4) j n0 by (simp add: last_conv_nth)
  qed
  have "0 < ?n" using n0 by simp
  then have ne: "?n - ?k \<noteq> ?n" using k0 kn by arith
  from ne assms(2) have far: "rs ! (?n - ?k) - l > tol"
    by (auto simp: asof_forward_def Let_def split: if_splits)
  have ex: "asof_forward rs l (rs ! (?n - ?k) - l) = Some (?n - ?k)"
    using ne by (simp add: asof_forward_def Let_def)
  from asof_forward_Some [OF assms(1) ex] assms(3,4) have "rs ! (?n - ?k) \<le> r" by blast
  with far show ?thesis by linarith
qed

lemma asof_nearest_Some:
  assumes "sorted rs" "asof_nearest rs l tol = Some i"
  shows "i < length rs \<and> \<bar>l - rs ! i\<bar> \<le> tol \<and> (\<forall>r \<in> set rs. \<bar>l - rs ! i\<bar> \<le> \<bar>l - r\<bar>)"
proof (cases "asof_backward rs l tol")
  case None
  with assms(2) have f: "asof_forward rs l tol = Some i"
    by (simp add: asof_nearest_def)
  note F = asof_forward_Some [OF assms(1) f]
  have "\<bar>l - rs ! i\<bar> \<le> \<bar>l - r\<bar>" if r: "r \<in> set rs" for r
  proof (cases "r \<le> l")
    case True
    from asof_backward_None [OF assms(1) None r True] F show ?thesis by linarith
  next
    case False
    then have "rs ! i \<le> r" using F r by auto
    with F False show ?thesis by linarith
  qed
  with F show ?thesis by auto
next
  case (Some bi)
  note B = asof_backward_Some [OF assms(1) Some]
  show ?thesis
  proof (cases "asof_forward rs l tol")
    case None
    with Some assms(2) have i: "i = bi" by (simp add: asof_nearest_def)
    have "\<bar>l - rs ! bi\<bar> \<le> \<bar>l - r\<bar>" if r: "r \<in> set rs" for r
    proof (cases "r \<le> l")
      case True
      then have "r \<le> rs ! bi" using B r by auto
      with B True show ?thesis by linarith
    next
      case False
      then have "l \<le> r" by simp
      from asof_forward_None [OF assms(1) None r this] B show ?thesis by linarith
    qed
    with B i show ?thesis by auto
  next
    case (Some fi)
    note F = asof_forward_Some [OF assms(1) Some]
    from \<open>asof_backward rs l tol = Some bi\<close> Some assms(2)
    have i: "i = (if (l - rs ! bi) - (rs ! fi - l) \<le> 0 then bi else fi)"
      by (simp add: asof_nearest_def)
    have near: "\<bar>l - rs ! i\<bar> \<le> \<bar>l - r\<bar>" if r: "r \<in> set rs" for r
    proof (cases "r \<le> l")
      case True
      then have "r \<le> rs ! bi" using B r by auto
      with B F True i show ?thesis by (auto split: if_splits)
    next
      case False
      then have "rs ! fi \<le> r" using F r by auto
      with B F False i show ?thesis by (auto split: if_splits)
    qed
    have "i < length rs" "\<bar>l - rs ! i\<bar> \<le> tol"
      using B F i by (auto split: if_splits)
    with near show ?thesis by blast
  qed
qed

lemma asof_nearest_None:
  assumes "sorted rs" "asof_nearest rs l tol = None" "r \<in> set rs"
  shows "\<bar>l - r\<bar> > tol"
proof -
  from assms(2) have b: "asof_backward rs l tol = None" and f: "asof_forward rs l tol = None"
    by (auto simp: asof_nearest_def split: option.splits)
  show ?thesis
  proof (cases "r \<le> l")
    case True
    from asof_backward_None [OF assms(1) b assms(3) True] show ?thesis by linarith
  next
    case False
    then have "l \<le> r" by simp
    from asof_forward_None [OF assms(1) f assms(3) this] show ?thesis by linarith
  qed
qed

lemma asof_nearest_eq_None_iff:
  assumes "sorted rs"
  shows "asof_nearest rs l tol = None \<longleftrightarrow> (\<forall>r \<in> set rs. \<bar>l - r\<bar> > tol)"
proof
  assume "asof_nearest rs l tol = None"
  then show "\<forall>r \<in> set rs. \<bar>l - r\<bar> > tol"
    using asof_nearest_None [OF assms] by blast
next
  assume a: "\<forall>r \<in> set rs. \<bar>l - r\<bar> > tol"
  show "asof_nearest rs l tol = None"
  proof (rule ccontr)
    assume "asof_nearest rs l tol \<noteq> None"
    then obtain i where i: "asof_nearest rs l tol = Some i" by auto
    from asof_nearest_Some [OF assms i] have "i < length rs" "\<bar>l - rs ! i\<bar> \<le> tol" by auto
    moreover from this have "rs ! i \<in> set rs" by simp
    ultimately show False using a by fastforce
  qed
qed

lemma merge_asof_sorted:
  assumes "sorted (map Ingress_UTC left)" "sorted (map ingress right)" "0 \<le> tolerance"
  shows "merge_asof left right tolerance =
     Inr (map (\<lambda>l. (l, map_option (\<lambda>i. right ! i)
                  (asof_nearest (map ingress right) (Ingress_UTC l) tolerance))) left)"
  using assms by (simp add: merge_asof_def)

lemma dropna_map_fst:
  "map fst (dropna (map (\<lambda>l. (l, g l)) ls)) = filter (\<lambda>l. g l \<noteq> None) ls"
  by (induction ls) (auto simp: dropna_def)

lemma dropna_set:
  "(l, r) \<in> set (dropna (map (\<lambda>l. (l, g l)) ls)) \<longleftrightarrow> l \<in> set ls \<and> g l = Some r"
  by (induction ls) (auto simp: dropna_def)

lemma nearest_row:
  assumes "sorted (map ingress right)"
    "map_option (\<lambda>i. right ! i) (asof_nearest (map ingress right) t tol) = Some r"
  shows "r \<in> set right \<and> \<bar>t - ingress r\<bar> \<le> tol
       \<and> (\<forall>r' \<in> set right. \<bar>t - ingress r\<bar> \<le> \<bar>t - ingress r'\<bar>)"
proof -
  from assms(2) obtain i where i: "asof_nearest (map ingress right) t tol = Some i" "r = right ! i"
    by auto
  from asof_nearest_Some [OF assms(1) i(1)]
  have n: "i < length right" "\<bar>t - map ingress right ! i\<bar> \<le> tol"
      "\<forall>v \<in> set (map ingress right). \<bar>t - map ingress right ! i\<bar> \<le> \<bar>t - v\<bar>"
    by auto
  from n(1) have v: "map ingress right ! i = ingress r" using i(2) by simp
  from n(1) i(2) have "r \<in> set right" by simp
  then show ?thesis using n(2,3) unfolding v by auto
qed

lemma nearest_row_matched_iff:
  assumes "sorted (map ingress right)"
  shows "map_option (\<lambda>i. right ! i) (asof_nearest (map ingress right) t tol) \<noteq> None
     \<longleftrightarrow> (\<exists>r \<in> set right. \<bar>t - ingress r\<bar> \<le> tol)"
  using asof_nearest_eq_None_iff [OF assms, of t tol] by (auto simp: not_less)

lemma merged_sorted:
  assumes "sorted (map Ingress_UTC left)" "sorted (map ingress right)" "0 \<le> tolerance"
  shows "merged left right tolerance =
     Inr (dropna (map (\<lambda>l. (l, map_option (\<lambda>i. right ! i)
                  (asof_nearest (map ingress right) (Ingress_UTC l) tolerance))) left))"
  by (simp add: merged_def merge_asof_sorted [OF assms])


text \<open>
  Claim C7. With both tables sorted by their ingress times and a tolerance that is not
  negative, the aligner returns a table. It keeps, in their order, exactly the derived
  events that have a reported event within the tolerance, the boundary included, and drops
  the others; each kept event is paired with a reported event that is within the tolerance
  and that no reported event is nearer than.
\<close>

theorem aligner_nearest_within_tolerance:
  assumes "sorted (map Ingress_UTC left)" "sorted (map ingress right)" "0 \<le> tolerance"
  shows "\<exists>m. merged left right tolerance = Inr m
     \<and> map fst m = filter (\<lambda>l. \<exists>r \<in> set right. \<bar>Ingress_UTC l - ingress r\<bar> \<le> tolerance) left
     \<and> (\<forall>(l, r) \<in> set m. l \<in> set left \<and> r \<in> set right
            \<and> \<bar>Ingress_UTC l - ingress r\<bar> \<le> tolerance
            \<and> (\<forall>r' \<in> set right. \<bar>Ingress_UTC l - ingress r\<bar> \<le> \<bar>Ingress_UTC l - ingress r'\<bar>))"
proof -
  let ?g = "\<lambda>l. map_option (\<lambda>i. right ! i)
                  (asof_nearest (map ingress right) (Ingress_UTC l) tolerance)"
  let ?m = "dropna (map (\<lambda>l. (l, ?g l)) left)"
  have m: "merged left right tolerance = Inr ?m"
    by (rule merged_sorted [OF assms])
  have f: "map fst ?m = filter (\<lambda>l. \<exists>r \<in> set right. \<bar>Ingress_UTC l - ingress r\<bar> \<le> tolerance) left"
    unfolding dropna_map_fst using nearest_row_matched_iff [OF assms(2)] by simp
  have n: "l \<in> set left \<and> r \<in> set right \<and> \<bar>Ingress_UTC l - ingress r\<bar> \<le> tolerance
            \<and> (\<forall>r' \<in> set right. \<bar>Ingress_UTC l - ingress r\<bar> \<le> \<bar>Ingress_UTC l - ingress r'\<bar>)"
    if "(l, r) \<in> set ?m" for l r
  proof -
    from that have "l \<in> set left" "?g l = Some r" unfolding dropna_set by auto
    with nearest_row [OF assms(2), of "Ingress_UTC l" tolerance r] show ?thesis by blast
  qed
  from m f n show ?thesis by blast
qed


theorem aligner_nearest_within_tolerance_witness:
  "merged
     [\<lparr> Ingress_UTC = 0, Ingress_Lat = 0, Ingress_Lon = 0, Ingress_SZA = 0, Ingress_Ls = 0,
        Egress_UTC = 5, Egress_Lat = 0, Egress_Lon = 0, Egress_SZA = 0, Egress_Ls = 0 \<rparr>,
      \<lparr> Ingress_UTC = timedelta_minutes 10, Ingress_Lat = 0, Ingress_Lon = 0, Ingress_SZA = 0,
        Ingress_Ls = 0, Egress_UTC = timedelta_minutes 11, Egress_Lat = 0, Egress_Lon = 0,
        Egress_SZA = 0, Egress_Ls = 0 \<rparr>]
     [\<lparr> ingress = timedelta_seconds 60, egress = timedelta_seconds 90 \<rparr>,
      \<lparr> ingress = timedelta_minutes 10 + timedelta_seconds 60 + 1,
        egress = timedelta_minutes 12 \<rparr>]
     (timedelta_seconds 60)
   = Inr [(\<lparr> Ingress_UTC = 0, Ingress_Lat = 0, Ingress_Lon = 0, Ingress_SZA = 0, Ingress_Ls = 0,
        Egress_UTC = 5, Egress_Lat = 0, Egress_Lon = 0, Egress_SZA = 0, Egress_Ls = 0 \<rparr>,
        \<lparr> ingress = timedelta_seconds 60, egress = timedelta_seconds 90 \<rparr>)]"
proof -
  let ?l0 = "\<lparr> Ingress_UTC = 0, Ingress_Lat = 0, Ingress_Lon = 0, Ingress_SZA = 0, Ingress_Ls = 0,
        Egress_UTC = 5, Egress_Lat = 0, Egress_Lon = 0, Egress_SZA = 0, Egress_Ls = 0 \<rparr>"
  let ?l1 = "\<lparr> Ingress_UTC = timedelta_minutes 10, Ingress_Lat = 0, Ingress_Lon = 0, Ingress_SZA = 0,
        Ingress_Ls = 0, Egress_UTC = timedelta_minutes 11, Egress_Lat = 0, Egress_Lon = 0,
        Egress_SZA = 0, Egress_Ls = 0 \<rparr>"
  let ?r0 = "\<lparr> ingress = timedelta_seconds 60, egress = timedelta_seconds 90 \<rparr>"
  let ?r1 = "\<lparr> ingress = timedelta_minutes 10 + timedelta_seconds 60 + 1,
        egress = timedelta_minutes 12 \<rparr>"
  have s: "sorted (map Ingress_UTC [?l0, ?l1])" "sorted (map ingress [?r0, ?r1])"
      "0 \<le> timedelta_seconds 60"
    by (simp_all add: timedelta_minutes_def timedelta_seconds_def)
  from aligner_nearest_within_tolerance [OF s] obtain m where
    m: "merged [?l0, ?l1] [?r0, ?r1] (timedelta_seconds 60) = Inr m"
    and f: "map fst m = filter (\<lambda>l. \<exists>r \<in> set [?r0, ?r1].
               \<bar>Ingress_UTC l - ingress r\<bar> \<le> timedelta_seconds 60) [?l0, ?l1]"
    and n: "\<forall>(l, r) \<in> set m. l \<in> set [?l0, ?l1] \<and> r \<in> set [?r0, ?r1]
            \<and> \<bar>Ingress_UTC l - ingress r\<bar> \<le> timedelta_seconds 60
            \<and> (\<forall>r' \<in> set [?r0, ?r1]. \<bar>Ingress_UTC l - ingress r\<bar> \<le> \<bar>Ingress_UTC l - ingress r'\<bar>)"
    by blast
  from f have f': "map fst m = [?l0]"
    by (simp add: timedelta_minutes_def timedelta_seconds_def)
  then obtain r where mr: "m = [(?l0, r)]" by (cases m) auto
  with n have "r \<in> set [?r0, ?r1]" "\<bar>Ingress_UTC ?l0 - ingress r\<bar> \<le> timedelta_seconds 60"
    by auto
  then have "r = ?r0"
    by (auto simp: timedelta_minutes_def timedelta_seconds_def)
  with m mr show ?thesis by simp
qed





section \<open>Properties of the rounding to doubles\<close>

lemma rhe_int [simp]: "round_half_even (of_int n) = n"
  by (simp add: round_half_even_def)

lemma rhe_cases: "round_half_even x = \<lfloor>x\<rfloor> \<or> round_half_even x = \<lfloor>x\<rfloor> + 1"
  by (simp add: round_half_even_def Let_def)

lemma rhe_mono:
  assumes "x \<le> y"
  shows "round_half_even x \<le> round_half_even y"
proof (cases "\<lfloor>x\<rfloor> < \<lfloor>y\<rfloor>")
  case True
  have "round_half_even x \<le> \<lfloor>x\<rfloor> + 1" using rhe_cases [of x] by auto
  moreover have "\<lfloor>y\<rfloor> \<le> round_half_even y" using rhe_cases [of y] by auto
  ultimately show ?thesis using True by linarith
next
  case False
  with floor_mono [OF assms] have e: "\<lfloor>x\<rfloor> = \<lfloor>y\<rfloor>" by linarith
  show ?thesis
    using assms unfolding round_half_even_def Let_def e
    by (auto split: if_splits)
qed

lemma rhe_uminus: "round_half_even (- x) = - round_half_even x"
proof (cases "x \<in> \<int>")
  case True
  then obtain n where "x = of_int n" by (auto elim: Ints_cases)
  then have "- x = of_int (- n)" by simp
  then show ?thesis using \<open>x = of_int n\<close> by (simp only: rhe_int)
next
  case False
  then have ne: "x \<noteq> of_int \<lfloor>x\<rfloor>"
    by (metis Ints_of_int)
  then have f: "\<lfloor>- x\<rfloor> = - \<lfloor>x\<rfloor> - 1"
    by (simp add: floor_minus ceiling_altdef)
  have l: "of_int \<lfloor>x\<rfloor> < x" using ne
    by (metis floor_correct less_eq_real_def)
  show ?thesis
    unfolding round_half_even_def Let_def f
    using l by (auto split: if_splits)
qed

lemma powr_powi: "(2::real) powr (of_int k) = 2 powi k"
  by (rule powr_real_of_int') simp_all

lemma ulp_nonneg [simp]: "0 \<le> ulp x"
  by (simp add: ulp_def)

lemma exponent_bounds:
  assumes "x \<noteq> 0"
  shows "2 powi (exponent x) \<le> \<bar>x\<bar>" "\<bar>x\<bar> < 2 powi (exponent x + 1)"
proof -
  have p: "0 < \<bar>x\<bar>" using assms by simp
  have "\<lfloor>log 2 \<bar>x\<bar>\<rfloor> = exponent x" by (simp add: exponent_def)
  then have "2 powr (of_int (exponent x)) \<le> \<bar>x\<bar> \<and> \<bar>x\<bar> < 2 powr (of_int (exponent x + 1))"
    using floor_log_eq_powr_iff [OF p, of 2 "exponent x"] by simp
  then show "2 powi (exponent x) \<le> \<bar>x\<bar>" "\<bar>x\<bar> < 2 powi (exponent x + 1)"
    unfolding powr_powi by blast+
qed

lemma exponent_eqI:
  assumes "2 powi e \<le> \<bar>x\<bar>" "\<bar>x\<bar> < 2 powi (e + 1)"
  shows "exponent x = e"
proof -
  have "0 < (2::real) powi e" by simp
  with assms(1) have p: "0 < \<bar>x\<bar>" by linarith
  have "2 powr (of_int e) \<le> \<bar>x\<bar> \<and> \<bar>x\<bar> < 2 powr (of_int (e + 1))"
    unfolding powr_powi using assms by blast
  then have "2 powr (of_int e) \<le> \<bar>x\<bar> \<and> \<bar>x\<bar> < 2 powr (of_int e + 1)"
    by simp
  then show ?thesis
    unfolding exponent_def using floor_log_eq_powr_iff [OF p, of 2 e] by simp
qed

lemma exponent_uminus [simp]: "exponent (- x) = exponent x"
  by (simp add: exponent_def)

lemma ulp_uminus [simp]: "ulp (- x) = ulp x"
  by (simp add: ulp_def)

lemma ulp_pos [simp]: "0 < ulp x"
  by (simp add: ulp_def)

lemma exponent_mono:
  assumes "0 < x" "x \<le> y"
  shows "exponent x \<le> exponent y"
proof -
  have "log 2 \<bar>x\<bar> \<le> log 2 \<bar>y\<bar>" using assms by simp
  then show ?thesis unfolding exponent_def by (rule floor_mono)
qed

lemma to_double_uminus: "to_double (- x) = - to_double x"
  by (simp add: to_double_def rhe_uminus)

lemma to_double_zero [simp]: "to_double 0 = 0"
  by (simp add: to_double_def)

lemma pow_52: "(2::real) powi e / 2 powi (e - 52) = of_int (2 ^ 52)"
proof -
  have "(2::real) powi (e - 52 + 52) = 2 powi (e - 52) * 2 powi 52"
    by (rule power_int_add) simp
  then show ?thesis by simp
qed

lemma pow_53: "(2::real) powi (e + 1) / 2 powi (e - 52) = of_int (2 ^ 53)"
proof -
  have "(2::real) powi (e - 52 + 53) = 2 powi (e - 52) * 2 powi 53"
    by (rule power_int_add) simp
  moreover have "e - 52 + 53 = e + 1" by simp
  ultimately show ?thesis by simp
qed

lemma significand_bounds:
  assumes "0 < x"
  shows "2 ^ 52 \<le> round_half_even (x / ulp x)" "round_half_even (x / ulp x) \<le> 2 ^ 53"
proof -
  from assms have n: "x \<noteq> 0" and a: "\<bar>x\<bar> = x" by simp_all
  note b = exponent_bounds [OF n, unfolded a]
  have "(2::real) powi (exponent x) / ulp x \<le> x / ulp x"
    using b(1) by (intro divide_right_mono) simp_all
  then have "round_half_even (of_int (2 ^ 52)) \<le> round_half_even (x / ulp x)"
    unfolding ulp_def pow_52 by (rule rhe_mono)
  then show "2 ^ 52 \<le> round_half_even (x / ulp x)" by (simp only: rhe_int)
  have "x / ulp x \<le> (2::real) powi (exponent x + 1) / ulp x"
    using b(2) by (intro divide_right_mono) simp_all
  then have "round_half_even (x / ulp x) \<le> round_half_even (of_int (2 ^ 53))"
    unfolding ulp_def pow_53 by (rule rhe_mono)
  then show "round_half_even (x / ulp x) \<le> 2 ^ 53" by (simp only: rhe_int)
qed

lemma to_double_bounds:
  assumes "0 < x"
  shows "2 powi (exponent x) \<le> to_double x" "to_double x \<le> 2 powi (exponent x + 1)"
proof -
  from assms have n: "x \<noteq> 0" by simp
  note s = significand_bounds [OF assms]
  have l: "(2::real) powi (exponent x) = of_int (2 ^ 52) * ulp x"
    using pow_52 [of "exponent x"] by (simp add: ulp_def field_simps)
  have u: "(2::real) powi (exponent x + 1) = of_int (2 ^ 53) * ulp x"
    using pow_53 [of "exponent x"] by (simp add: ulp_def field_simps)
  have "of_int (2 ^ 52) * ulp x \<le> of_int (round_half_even (x / ulp x)) * ulp x"
    using s(1) by (intro mult_right_mono ulp_nonneg) (simp only: of_int_le_iff)
  then show "2 powi (exponent x) \<le> to_double x"
    unfolding l using n by (simp add: to_double_def)
  have "of_int (round_half_even (x / ulp x)) * ulp x \<le> of_int (2 ^ 53) * ulp x"
    using s(2) by (intro mult_right_mono ulp_nonneg) (simp only: of_int_le_iff)
  then show "to_double x \<le> 2 powi (exponent x + 1)"
    unfolding u using n by (simp add: to_double_def)
qed

lemma to_double_pos: "0 < x \<Longrightarrow> 0 < to_double x"
proof -
  assume "0 < x"
  from to_double_bounds(1) [OF this] have "2 powi (exponent x) \<le> to_double x" .
  moreover have "0 < (2::real) powi (exponent x)" by simp
  ultimately show ?thesis by linarith
qed

lemma to_double_nonneg: "0 \<le> x \<Longrightarrow> 0 \<le> to_double x"
  using to_double_pos [of x] by (cases "x = 0") auto

lemma to_double_mono_pos:
  assumes "0 < x" "x \<le> y"
  shows "to_double x \<le> to_double y"
proof (cases "exponent x = exponent y")
  case True
  then have u: "ulp x = ulp y" by (simp add: ulp_def)
  have "x / ulp y \<le> y / ulp y" using assms(2) by (intro divide_right_mono) simp_all
  then have "round_half_even (x / ulp y) \<le> round_half_even (y / ulp y)" by (rule rhe_mono)
  then have "of_int (round_half_even (x / ulp y)) * ulp y \<le> of_int (round_half_even (y / ulp y)) * ulp y"
    by (intro mult_right_mono) simp_all
  then show ?thesis using assms u by (simp add: to_double_def)
next
  case False
  with exponent_mono [OF assms] have "exponent x + 1 \<le> exponent y" by linarith
  then have "(2::real) powi (exponent x + 1) \<le> 2 powi (exponent y)"
    by (intro power_int_increasing) simp_all
  moreover have "to_double x \<le> 2 powi (exponent x + 1)"
    using to_double_bounds(2) [OF assms(1)] .
  moreover have "2 powi (exponent y) \<le> to_double y"
    using to_double_bounds(1) [of y] assms by simp
  ultimately show ?thesis by linarith
qed

lemma to_double_mono:
  assumes "x \<le> y"
  shows "to_double x \<le> to_double y"
proof -
  consider "0 < x" | "x \<le> 0" "0 \<le> y" | "y < 0" using assms by linarith
  then show ?thesis
  proof cases
    case 1
    then show ?thesis using assms by (rule to_double_mono_pos)
  next
    case 2
    have "0 \<le> to_double (- x)" using 2(1) by (intro to_double_nonneg) simp
    then have "to_double x \<le> 0" by (simp add: to_double_uminus)
    moreover have "0 \<le> to_double y" using 2(2) by (rule to_double_nonneg)
    ultimately show ?thesis by linarith
  next
    case 3
    then have "0 < - y" "- y \<le> - x" using assms by simp_all
    then have "to_double (- y) \<le> to_double (- x)" by (rule to_double_mono_pos)
    then show ?thesis by (simp add: to_double_uminus)
  qed
qed

lemma ulp_neq0 [simp]: "ulp x \<noteq> 0"
  using ulp_pos [of x] by linarith

lemma pow2_le_imp:
  assumes "(2::real) powi a \<le> 2 powi b"
  shows "a \<le> b"
proof (rule ccontr)
  assume "\<not> a \<le> b"
  then have "b < a" by simp
  then have "(2::real) powi b < 2 powi a" by (rule power_int_strict_increasing) simp
  with assms show False by linarith
qed

lemma pow2_less_imp:
  assumes "(2::real) powi a < 2 powi b"
  shows "a < b"
proof (rule ccontr)
  assume "\<not> a < b"
  then have "b \<le> a" by simp
  then have "(2::real) powi b \<le> 2 powi a" by (rule power_int_increasing) simp
  with assms show False by linarith
qed

lemma to_double_exact:
  assumes "x \<noteq> 0" "x / ulp x = of_int m"
  shows "to_double x = x"
proof -
  have "to_double x = of_int m * ulp x"
    using assms by (simp add: to_double_def)
  also have "\<dots> = x / ulp x * ulp x" by (simp only: assms(2))
  also have "\<dots> = x" by simp
  finally show ?thesis .
qed

lemma exponent_pow2 [simp]: "exponent (2 powi k) = k"
  by (rule exponent_eqI) (simp_all add: power_int_strict_increasing)

lemma to_double_pow2 [simp]: "to_double (2 powi k) = 2 powi k"
proof (rule to_double_exact)
  show "(2::real) powi k \<noteq> 0" by simp
  show "(2::real) powi k / ulp (2 powi k) = of_int (2 ^ 52)"
    unfolding ulp_def exponent_pow2 by (rule pow_52)
qed

lemma to_double_eval:
  assumes "2 powi e \<le> \<bar>x\<bar>" "\<bar>x\<bar> < 2 powi (e + 1)"
  shows "to_double x = of_int (round_half_even (x / 2 powi (e - 52))) * 2 powi (e - 52)"
proof -
  have "0 < (2::real) powi e" by simp
  with assms(1) have "0 < \<bar>x\<bar>" by linarith
  then have "x \<noteq> 0" by simp
  then show ?thesis
    by (simp add: to_double_def ulp_def exponent_eqI [OF assms])
qed

lemma to_double_idem_pos:
  assumes "0 < x"
  shows "to_double (to_double x) = to_double x"
proof -
  let ?n = "round_half_even (x / ulp x)"
  let ?y = "to_double x"
  from assms have y: "?y = of_int ?n * ulp x" by (simp add: to_double_def)
  note s = significand_bounds [OF assms]
  show ?thesis
  proof (cases "?n = 2 ^ 53")
    case True
    have "?y = of_int (2 ^ 53) * ulp x" unfolding y True ..
    also have "\<dots> = 2 powi (exponent x + 1)"
      using pow_53 [of "exponent x"] by (simp add: ulp_def field_simps)
    finally show ?thesis by (simp only: to_double_pow2)
  next
    case False
    with s(2) have lt: "?n < 2 ^ 53" by linarith
    have yp: "0 < ?y" using assms by (rule to_double_pos)
    have lo: "2 powi (exponent x) \<le> \<bar>?y\<bar>"
      using to_double_bounds(1) [OF assms] yp by simp
    have "of_int ?n * ulp x < of_int (2 ^ 53) * ulp x"
      using lt by (intro mult_strict_right_mono ulp_pos) (simp only: of_int_less_iff)
    also have "\<dots> = 2 powi (exponent x + 1)"
      using pow_53 [of "exponent x"] by (simp add: ulp_def field_simps)
    finally have hi: "\<bar>?y\<bar> < 2 powi (exponent x + 1)"
      using yp y by simp
    have e: "exponent ?y = exponent x" using lo hi by (rule exponent_eqI)
    then have u: "ulp ?y = ulp x" by (simp add: ulp_def)
    have "?y / ulp ?y = ?y / ulp x" by (simp only: u)
    also have "\<dots> = of_int ?n" using y by simp
    finally have "?y / ulp ?y = of_int ?n" .
    moreover have "?y \<noteq> 0" using yp by simp
    ultimately show ?thesis by (intro to_double_exact)
  qed
qed

lemma to_double_idem [simp]: "to_double (to_double x) = to_double x"
proof -
  consider "0 < x" | "x = 0" | "x < 0" by linarith
  then show ?thesis
  proof cases
    case 1
    then show ?thesis by (rule to_double_idem_pos)
  next
    case 2
    then show ?thesis by simp
  next
    case 3
    then have "to_double (to_double (- x)) = to_double (- x)"
      by (intro to_double_idem_pos) simp
    then show ?thesis by (simp add: to_double_uminus)
  qed
qed

lemma to_double_int:
  assumes "\<bar>n\<bar> \<le> 2 ^ 53"
  shows "to_double (of_int n) = of_int n"
proof (cases "n = 0")
  case True
  then show ?thesis by simp
next
  case False
  let ?x = "of_int n :: real"
  let ?e = "exponent ?x"
  have x0: "?x \<noteq> 0" using False by simp
  note b = exponent_bounds [OF x0]
  have ax: "\<bar>?x\<bar> = of_int \<bar>n\<bar>" by simp
  have "(of_int \<bar>n\<bar> :: real) \<le> of_int (2 ^ 53)"
    using assms by (simp only: of_int_le_iff)
  moreover have "(of_int (2 ^ 53) :: real) = 2 powi 53" by simp
  ultimately have up: "\<bar>?x\<bar> \<le> 2 powi 53" unfolding ax by (simp only:)
  with b(1) have "(2::real) powi ?e \<le> 2 powi 53" by linarith
  then have e53: "?e \<le> 53" by (rule pow2_le_imp)
  show ?thesis
  proof (cases "?e = 53")
    case True
    with b(1) up have "\<bar>?x\<bar> = 2 powi 53" by (simp only:)
    then have "?x = 2 powi 53 \<or> ?x = - (2 powi 53)" by linarith
    then show ?thesis
      by (metis to_double_pow2 to_double_uminus)
  next
    case False
    with e53 have le: "?e \<le> 52" by linarith
    have "1 \<le> \<bar>n\<bar>" using \<open>n \<noteq> 0\<close> by linarith
    then have "(1::real) \<le> of_int \<bar>n\<bar>" by (simp only: of_int_1_le_iff)
    then have "(1::real) \<le> \<bar>?x\<bar>" unfolding ax .
    moreover have "(2::real) powi 0 = 1" by simp
    ultimately have "(2::real) powi 0 < 2 powi (?e + 1)" using b(2) by linarith
    then have ge: "0 < ?e + 1" by (rule pow2_less_imp)
    define k where "k = nat (52 - ?e)"
    have k: "?e - 52 = - int k" using le by (simp add: k_def)
    have "ulp ?x = 2 powi (- int k)" unfolding ulp_def k ..
    also have "\<dots> = 1 / 2 ^ k" by (simp add: power_int_minus_divide)
    finally have u: "ulp ?x = 1 / 2 ^ k" .
    have "?x / ulp ?x = of_int (n * 2 ^ k)" by (simp add: u)
    with x0 show ?thesis by (rule to_double_exact)
  qed
qed

section \<open>Properties of the crossing detector\<close>

lemma ing_mask_pair [simp]: "ing_mask R [a, b] = [a > R \<and> b \<le> R]"
  by (simp add: ing_mask_def)

lemma egr_mask_pair [simp]: "egr_mask R [a, b] = [a \<le> R \<and> b > R]"
  by (simp add: egr_mask_def)

lemma where_plus_1_single [simp]: "where_plus_1 [b] = (if b then [1] else [])"
  by (simp add: where_plus_1_def)

lemma compute_tangent_params_et:
  "compute_tangent_params sp et gs_id = Some s \<Longrightarrow> fst s = et"
  by (auto simp: compute_tangent_params_def Let_def split: option.splits)

lemma valid_of_et:
  "map fst (valid_of (executor_map (\<lambda>et. compute_tangent_params sp et gs_id) et_list))
     = filter (\<lambda>et. compute_tangent_params sp et gs_id \<noteq> None) et_list"
proof (induction et_list)
  case Nil
  then show ?case by (simp add: valid_of_def executor_map_def)
next
  case (Cons a et_list)
  show ?case
  proof (cases "compute_tangent_params sp a gs_id")
    case None
    with Cons show ?thesis by (simp add: valid_of_def executor_map_def)
  next
    case (Some s)
    then have "fst s = a" by (rule compute_tangent_params_et)
    with Some Cons show ?thesis by (simp add: valid_of_def executor_map_def)
  qed
qed

lemma valid_of_sorted:
  "sorted et_list \<Longrightarrow>
     sorted (map fst (valid_of (executor_map (\<lambda>et. compute_tangent_params sp et gs_id) et_list)))"
  unfolding valid_of_et using sorted_filter [of "\<lambda>x. x" et_list] by simp

lemma valid_of_empty:
  "valid_of (executor_map w et_list) = [] \<longleftrightarrow> (\<forall>et \<in> set et_list. w et = None)"
proof -
  have "valid_of (executor_map w et_list) = [] \<longleftrightarrow> filter (\<lambda>r. r \<noteq> None) (map w et_list) = []"
    by (simp only: valid_of_def executor_map_def map_is_Nil_conv)
  also have "\<dots> \<longleftrightarrow> (\<forall>r \<in> set (map w et_list). \<not> r \<noteq> None)"
    by (simp only: filter_empty_conv)
  also have "\<dots> \<longleftrightarrow> (\<forall>et \<in> set et_list. w et = None)"
    by (simp only: set_map ball_simps not_not)
  finally show ?thesis .
qed

lemma events_at_ET:
  "events_at sp et_vals tanpts szas idxs = Some out \<Longrightarrow> map fst out = map ((!) et_vals) idxs"
  by (induction idxs arbitrary: out)
     (auto simp: Let_def split: option.splits prod.splits)

lemma data_frame_ET:
  "data_frame sp rows = Some df \<Longrightarrow> map ET df = map fst rows"
  by (induction sp rows arbitrary: df rule: data_frame.induct)
     (auto split: option.splits)

lemma events_at_total:
  "\<forall>t. lspcn sp ''MARS'' t ''LT+S'' \<noteq> None \<Longrightarrow>
     \<exists>out. events_at sp et_vals tanpts szas idxs = Some out"
proof (induction idxs)
  case Nil
  then show ?case by simp
next
  case (Cons idx idxs)
  then obtain out where o: "events_at sp et_vals tanpts szas idxs = Some out" by blast
  from Cons.prems obtain ls where l: "lspcn sp ''MARS'' (et_vals ! idx) ''LT+S'' = Some ls"
    by fastforce
  show ?case
    by (simp add: o l Let_def split: prod.splits)
qed

lemma data_frame_total:
  "\<forall>t. et2utc sp t ''ISOC'' 3 \<noteq> None \<Longrightarrow> \<exists>df. data_frame sp rows = Some df"
proof (induction sp rows rule: data_frame.induct)
  case (1 sp)
  then show ?case by simp
next
  case (2 sp t lon lat sza ls rows)
  from 2(2) obtain u where u: "et2utc sp t ''ISOC'' 3 = Some u" by fastforce
  from 2(1) [OF u 2(2)] obtain df where d: "data_frame sp rows = Some df" by blast
  show ?case by (simp add: u d)
qed

lemma where_plus_1_increasing: "sorted_wrt (<) (where_plus_1 msk)"
proof -
  have "sorted_wrt (<) (filter (\<lambda>i. msk ! i) [0..<length msk])"
    by (rule sorted_wrt_filter) (simp add: sorted_wrt_upt)
  then show ?thesis
    by (simp add: where_plus_1_def sorted_wrt_map)
qed

lemma where_plus_1_bound: "i \<in> set (where_plus_1 msk) \<Longrightarrow> 0 < i \<and> i \<le> length msk"
  by (auto simp: where_plus_1_def)

lemma length_ing_mask: "length (ing_mask radius ip) = length ip - 1"
  by (simp add: ing_mask_def)

lemma length_egr_mask: "length (egr_mask radius ip) = length ip - 1"
  by (simp add: egr_mask_def)

lemma sorted_map_nth:
  fixes xs :: "real list"
  assumes "sorted xs" "sorted_wrt (<) idxs" "\<forall>i \<in> set idxs. i < length xs"
  shows "sorted (map ((!) xs) idxs)"
  using assms(2,3)
proof (induction idxs)
  case Nil
  then show ?case by simp
next
  case (Cons i idxs)
  have "xs ! i \<le> xs ! j" if "j \<in> set idxs" for j
    using that Cons.prems assms(1) by (auto intro!: sorted_nth_mono)
  with Cons show ?case by simp
qed

lemma crossing_rows_sorted:
  fixes et_vals :: "real list"
  assumes "sorted et_vals" "length msk = length et_vals - 1"
    "events_at sp et_vals tanpts szas (where_plus_1 msk) = Some rows"
    "data_frame sp rows = Some df"
  shows "sorted (map ET df)"
proof -
  have b: "\<forall>i \<in> set (where_plus_1 msk). i < length et_vals"
    using where_plus_1_bound [of _ msk] assms(2) by fastforce
  have "map ET df = map ((!) et_vals) (where_plus_1 msk)"
    using data_frame_ET [OF assms(4)] events_at_ET [OF assms(3)] by simp
  then show ?thesis
    using sorted_map_nth [OF assms(1) where_plus_1_increasing b] by simp
qed

lemma scan_sorted:
  assumes "sorted (map fst (valid_of (executor_map (\<lambda>et. compute_tangent_params sp et gs_id) et_list)))"
    "scan sp gs_id et_list = Inr (df_ing, df_egr)"
  shows "sorted (map ET df_ing) \<and> sorted (map ET df_egr)"
proof -
  let ?valid = "valid_of (executor_map (\<lambda>et. compute_tangent_params sp et gs_id) et_list)"
  let ?et = "map (\<lambda>(et, ip, tanpt, sza). et) ?valid"
  let ?ip = "map (\<lambda>(et, ip, tanpt, sza). ip) ?valid"
  let ?tp = "map (\<lambda>(et, ip, tanpt, sza). tanpt) ?valid"
  let ?sz = "map (\<lambda>(et, ip, tanpt, sza). sza) ?valid"
  have e: "?et = map fst ?valid" by (rule map_cong) auto
  from assms(2) obtain ri re where
    ri: "events_at sp ?et ?tp ?sz (where_plus_1 (ing_mask MARS_RADIUS ?ip)) = Some ri"
    and re: "events_at sp ?et ?tp ?sz (where_plus_1 (egr_mask MARS_RADIUS ?ip)) = Some re"
    and di: "data_frame sp ri = Some df_ing" and de: "data_frame sp re = Some df_egr"
    by (auto simp: scan_def Let_def split: if_splits option.splits)
  have s: "sorted ?et" using assms(1) unfolding e .
  have li: "length (ing_mask MARS_RADIUS ?ip) = length ?et - 1"
    and le: "length (egr_mask MARS_RADIUS ?ip) = length ?et - 1"
    by (simp_all add: length_ing_mask length_egr_mask)
  show ?thesis
    using crossing_rows_sorted [OF s li ri di] crossing_rows_sorted [OF s le re de] by simp
qed

lemma scan_drops_failed_epoch:
  assumes "compute_tangent_params sp et gs_id = None"
  shows "scan sp gs_id (xs @ et # ys) = scan sp gs_id (xs @ ys)"
proof -
  have "valid_of (executor_map (\<lambda>et. compute_tangent_params sp et gs_id) (xs @ et # ys))
      = valid_of (executor_map (\<lambda>et. compute_tangent_params sp et gs_id) (xs @ ys))"
    using assms by (simp add: valid_of_def executor_map_def)
  then show ?thesis by (simp add: scan_def)
qed

lemma scan_returns:
  assumes "\<exists>et \<in> set et_list. compute_tangent_params sp et gs_id \<noteq> None"
    "\<forall>t. lspcn sp ''MARS'' t ''LT+S'' \<noteq> None" "\<forall>t. et2utc sp t ''ISOC'' 3 \<noteq> None"
  shows "\<exists>df_ing df_egr. scan sp gs_id et_list = Inr (df_ing, df_egr)"
proof -
  let ?valid = "valid_of (executor_map (\<lambda>et. compute_tangent_params sp et gs_id) et_list)"
  let ?et = "map (\<lambda>(et, ip, tanpt, sza). et) ?valid"
  let ?ip = "map (\<lambda>(et, ip, tanpt, sza). ip) ?valid"
  let ?tp = "map (\<lambda>(et, ip, tanpt, sza). tanpt) ?valid"
  let ?sz = "map (\<lambda>(et, ip, tanpt, sza). sza) ?valid"
  have v: "?valid \<noteq> []"
    using assms(1) by (simp add: valid_of_empty)
  obtain ri where
    ri: "events_at sp ?et ?tp ?sz (where_plus_1 (ing_mask MARS_RADIUS ?ip)) = Some ri"
    using events_at_total [OF assms(2)] by blast
  obtain re where
    re: "events_at sp ?et ?tp ?sz (where_plus_1 (egr_mask MARS_RADIUS ?ip)) = Some re"
    using events_at_total [OF assms(2)] by blast
  obtain di where di: "data_frame sp ri = Some di"
    using data_frame_total [OF assms(3)] by blast
  obtain de where de: "data_frame sp re = Some de"
    using data_frame_total [OF assms(3)] by blast
  have "scan sp gs_id et_list = Inr (di, de)"
    unfolding scan_def Let_def using v by (simp only: if_False ri re di de option.case)
  then show ?thesis by blast
qed

lemma scan_all_failed:
  assumes "\<forall>et \<in> set et_list. compute_tangent_params sp et gs_id = None"
  shows "scan sp gs_id et_list = Inl ValueError"
proof -
  have "valid_of (executor_map (\<lambda>et. compute_tangent_params sp et gs_id) et_list) = []"
    unfolding valid_of_empty using assms .
  then show ?thesis
    unfolding scan_def Let_def by simp
qed

lemma to_double_numeral:
  "(numeral n :: int) \<le> 2 ^ 53 \<Longrightarrow> to_double (numeral n) = numeral n"
  using to_double_int [of "numeral n"] by simp

lemma to_double_one [simp]: "to_double 1 = 1"
  using to_double_int [of 1] by simp

lemma to_double_two [simp]: "to_double 2 = 2"
  using to_double_int [of 2] by simp

lemma to_double_twice_lower:
  assumes "0 \<le> d"
  shows "d \<le> to_double (2 * to_double d)"
proof (cases "d = 0")
  case True
  then show ?thesis by simp
next
  case False
  with assms have p: "0 < d" by simp
  then have n: "d \<noteq> 0" and a: "\<bar>d\<bar> = d" by simp_all
  let ?e = "exponent d"
  have "2 powi ?e \<le> to_double d" using to_double_bounds(1) [OF p] .
  then have "2 * 2 powi ?e \<le> 2 * to_double d" by simp
  moreover have "(2::real) powi (?e + 1) = 2 * 2 powi ?e"
    by (simp add: power_int_add)
  ultimately have "2 powi (?e + 1) \<le> 2 * to_double d" by simp
  then have "to_double (2 powi (?e + 1)) \<le> to_double (2 * to_double d)"
    by (rule to_double_mono)
  then have "2 powi (?e + 1) \<le> to_double (2 * to_double d)"
    by (simp only: to_double_pow2)
  moreover have "d < 2 powi (?e + 1)"
    using exponent_bounds(2) [OF n] unfolding a .
  ultimately show ?thesis by linarith
qed

lemma arange_item_step:
  assumes a: "to_double a = a" and s: "0 < s"
  shows "arange_item a s i \<le> arange_item a s (Suc i)"
proof -
  define nx where "nx = fadd a s"
  define delta where "delta = fsub nx a"
  have f: "arange_item a s k = (if k = 0 then a else if k = 1 then nx
                        else fadd a (fmul (to_double (of_nat k)) delta))" for k
    by (simp add: arange_item_def nx_def delta_def Let_def)
  have anx: "a \<le> nx"
  proof -
    have "to_double a \<le> to_double (a + s)" using s by (intro to_double_mono) simp
    then show ?thesis by (simp add: nx_def fadd_def a)
  qed
  have nxd: "to_double nx = nx" by (simp add: nx_def fadd_def)
  have d0: "0 \<le> delta"
    unfolding delta_def fsub_def using anx by (intro to_double_nonneg) simp
  consider "i = 0" | "i = 1" | "2 \<le> i" by linarith
  then show ?thesis
  proof cases
    case 1
    then show ?thesis using anx by (simp add: f)
  next
    case 2
    have "nx - a \<le> to_double (2 * to_double (nx - a))"
      using anx by (intro to_double_twice_lower) simp
    then have "nx \<le> a + to_double (2 * delta)"
      by (simp add: delta_def fsub_def)
    then have "to_double nx \<le> to_double (a + to_double (2 * delta))"
      by (rule to_double_mono)
    then show ?thesis
      using 2 by (simp add: f fadd_def fmul_def nxd)
  next
    case 3
    have "to_double (of_nat i) \<le> to_double (of_nat (Suc i))"
      by (intro to_double_mono) simp
    then have "to_double (of_nat i) * delta \<le> to_double (of_nat (Suc i)) * delta"
      using d0 by (rule mult_right_mono)
    then have "to_double (to_double (of_nat i) * delta)
        \<le> to_double (to_double (of_nat (Suc i)) * delta)"
      by (rule to_double_mono)
    then have "to_double (a + to_double (to_double (of_nat i) * delta))
        \<le> to_double (a + to_double (to_double (of_nat (Suc i)) * delta))"
      by (intro to_double_mono) simp
    then show ?thesis
      using 3 by (simp add: f fadd_def fmul_def)
  qed
qed

lemma sorted_map_upt:
  fixes f :: "nat \<Rightarrow> real"
  assumes "\<And>i. f i \<le> f (Suc i)"
  shows "sorted (map f [0..<n])"
proof -
  have m: "f i \<le> f j" if "i \<le> j" for i j
    using assms that by (rule lift_Suc_mono_le [of f])
  have "sorted_wrt (\<lambda>i j. f i \<le> f j) [0..<n]"
    by (rule sorted_wrt_mono_rel [OF _ sorted_wrt_upt]) (simp add: m)
  then show ?thesis by (simp add: sorted_map)
qed

lemma np_arange_sorted:
  assumes "0 < step \<or> start_et \<le> end_et" "np_arange start_et end_et step = Inr et_list"
  shows "sorted et_list"
proof (cases "0 < step")
  case True
  then have sp: "0 < to_double step" by (rule to_double_pos)
  have i: "to_double (to_double start_et) = to_double start_et" by simp
  show ?thesis
  proof (cases "\<lceil>fdiv (fsub (to_double end_et) (to_double start_et)) (to_double step)\<rceil> \<le> 0")
    case True
    with assms(2) sp show ?thesis by (simp add: np_arange_def Let_def)
  next
    case False
    with assms(2) sp have "et_list =
        map (arange_item (to_double start_et) (to_double step))
          [0..<nat \<lceil>fdiv (fsub (to_double end_et) (to_double start_et)) (to_double step)\<rceil>]"
      by (simp add: np_arange_def Let_def)
    moreover have "arange_item (to_double start_et) (to_double step) k
        \<le> arange_item (to_double start_et) (to_double step) (Suc k)" for k
      using i sp by (rule arange_item_step)
    ultimately show ?thesis
      using sorted_map_upt [of "arange_item (to_double start_et) (to_double step)"] by simp
  qed
next
  case False
  with assms(1) have le: "start_et \<le> end_et" and st: "step \<le> 0" by simp_all
  from st have "to_double step \<le> to_double 0" by (rule to_double_mono)
  then have s0: "to_double step \<le> 0" by simp
  show ?thesis
  proof (cases "to_double step = 0")
    case True
    with assms(2) show ?thesis by (simp add: np_arange_def Let_def)
  next
    case False
    with s0 have sn: "to_double step < 0" by simp
    have "to_double start_et \<le> to_double end_et" using le by (rule to_double_mono)
    then have "0 \<le> fsub (to_double end_et) (to_double start_et)"
      unfolding fsub_def by (intro to_double_nonneg) simp
    then have "fsub (to_double end_et) (to_double start_et) / to_double step \<le> 0"
      using sn by (simp add: divide_nonneg_neg)
    then have "to_double (fsub (to_double end_et) (to_double start_et) / to_double step)
        \<le> to_double 0"
      by (rule to_double_mono)
    then have "fdiv (fsub (to_double end_et) (to_double start_et)) (to_double step) \<le> 0"
      by (simp add: fdiv_def)
    then have "\<lceil>fdiv (fsub (to_double end_et) (to_double start_et)) (to_double step)\<rceil> \<le> 0"
      by (simp add: ceiling_le_iff)
    with assms(2) False show ?thesis by (simp add: np_arange_def Let_def)
  qed
qed

lemma example_arange: "np_arange 0 7 1 = Inr [0, 1, 2, 3, 4, 5, 6]"
  by (simp add: np_arange_def arange_item_def fadd_def fsub_def fmul_def fdiv_def Let_def
      to_double_numeral upt_rec)

lemma example_arange_one: "np_arange 2 3 1 = Inr [2]"
  by (simp add: np_arange_def arange_item_def fadd_def fsub_def fmul_def fdiv_def Let_def
      to_double_numeral upt_rec)

lemma np_arange_length:
  assumes "to_double start_epoch = start_epoch" "to_double end_epoch = end_epoch"
    "to_double step = step" "start_epoch < end_epoch" "0 < step"
  shows "\<exists>et_list. np_arange start_epoch end_epoch step = Inr et_list
     \<and> int (length et_list) = \<lceil>fdiv (fsub end_epoch start_epoch) step\<rceil>"
proof -
  have "0 < to_double (end_epoch - start_epoch)"
    using assms(4) by (intro to_double_pos) simp
  then have "0 < fsub end_epoch start_epoch / step"
    using assms(5) by (simp add: fsub_def)
  then have "0 < fdiv (fsub end_epoch start_epoch) step"
    unfolding fdiv_def by (rule to_double_pos)
  then have p: "0 < \<lceil>fdiv (fsub end_epoch start_epoch) step\<rceil>"
    by (simp add: ceiling_less_iff)
  then show ?thesis
    using assms(5) by (simp add: np_arange_def Let_def assms(1-3))
qed

text \<open>
  Claim C3, as the code has it. For doubles \<open>start_epoch < end_epoch\<close> and
  \<open>step > 0\<close> the epoch sequence is built without an error, and its length is the
  ceiling of the quotient \<open>(end_epoch - start_epoch) / step\<close> as double arithmetic gives
  it: the rounded quotient of the rounded difference. The list of results before the filter
  has the same length. When the difference and the quotient are doubles themselves, this is
  the ceiling of the exact quotient.
\<close>

theorem sample_count_is_double_ceiling:
  assumes "to_double start_epoch = start_epoch" "to_double end_epoch = end_epoch"
    "to_double step = step" "start_epoch < end_epoch" "0 < step"
  shows "\<exists>et_list. np_arange start_epoch end_epoch step = Inr et_list
     \<and> int (length et_list) = \<lceil>fdiv (fsub end_epoch start_epoch) step\<rceil>
     \<and> length (executor_map worker et_list) = length et_list
     \<and> (fsub end_epoch start_epoch = end_epoch - start_epoch
          \<and> fdiv (end_epoch - start_epoch) step = (end_epoch - start_epoch) / step
        \<longrightarrow> int (length et_list) = \<lceil>(end_epoch - start_epoch) / step\<rceil>)"
proof -
  from np_arange_length [OF assms] obtain et_list where
    a: "np_arange start_epoch end_epoch step = Inr et_list"
    and l: "int (length et_list) = \<lceil>fdiv (fsub end_epoch start_epoch) step\<rceil>"
    by blast
  have "length (executor_map worker et_list) = length et_list"
    by (simp add: executor_map_def)
  moreover have "int (length et_list) = \<lceil>(end_epoch - start_epoch) / step\<rceil>"
    if "fsub end_epoch start_epoch = end_epoch - start_epoch
          \<and> fdiv (end_epoch - start_epoch) step = (end_epoch - start_epoch) / step"
    using l that by simp
  ultimately show ?thesis using a l by blast
qed

lemma to_double_seven_halves: "to_double (7 / 2) = 7 / 2"
  by (subst to_double_eval [of 1]) (simp_all add: round_half_even_def Let_def)

theorem sample_count_is_double_ceiling_witness:
  "np_arange 0 (7 / 2) 1 = Inr [0, 1, 2, 3]
   \<and> int (length [0 :: real, 1, 2, 3]) = \<lceil>(7 / 2 - 0) / (1 :: real)\<rceil>"
proof -
  have d: "to_double 0 = 0" "to_double (7 / 2) = 7 / 2" "to_double 1 = 1"
    by (simp_all add: to_double_seven_halves)
  have o: "(0 :: real) < 7 / 2" "(0 :: real) < 1" by simp_all
  have x: "fsub (7 / 2) 0 = 7 / 2 - 0 \<and> fdiv (7 / 2 - 0) 1 = (7 / 2 - 0) / 1"
    by (simp add: fsub_def fdiv_def to_double_seven_halves)
  from sample_count_is_double_ceiling [OF d o, of "\<lambda>et. None"] x obtain et_list where
    a: "np_arange 0 (7 / 2) 1 = Inr et_list"
    and l: "int (length et_list) = \<lceil>(7 / 2 - 0) / (1 :: real)\<rceil>" by blast
  have "np_arange 0 (7 / 2) 1 = Inr [0, 1, 2, 3]"
    by (simp add: np_arange_def arange_item_def fadd_def fsub_def fmul_def fdiv_def Let_def
        to_double_numeral to_double_seven_halves upt_rec)
  with a l show ?thesis by simp
qed

text \<open>
  The claim as it is written, with the exact quotient, fails at the doubles nearest to
  \<open>0.2\<close>, \<open>0.8\<close> and \<open>0.2\<close>: the exact quotient is 3, double arithmetic gives a
  quotient just above 3, and four epochs are sampled, the last one the end epoch itself.
\<close>

theorem sample_count_exceeds_exact_ceiling:
  "(3602879701896397 / 18014398509481984 :: real) < 3602879701896397 / 4503599627370496
   \<and> to_double (3602879701896397 / 18014398509481984) = 3602879701896397 / 18014398509481984
   \<and> to_double (3602879701896397 / 4503599627370496) = 3602879701896397 / 4503599627370496
   \<and> np_arange (3602879701896397 / 18014398509481984) (3602879701896397 / 4503599627370496)
        (3602879701896397 / 18014398509481984)
      = Inr [3602879701896397 / 18014398509481984, 3602879701896397 / 9007199254740992,
             1351079888211149 / 2251799813685248, 3602879701896397 / 4503599627370496]
   \<and> \<lceil>(3602879701896397 / 4503599627370496 - 3602879701896397 / 18014398509481984)
        / (3602879701896397 / 18014398509481984 :: real)\<rceil> = 3"
proof -
  let ?s = "3602879701896397 / 18014398509481984 :: real"
  let ?s2 = "3602879701896397 / 9007199254740992 :: real"
  let ?m = "1351079888211149 / 2251799813685248 :: real"
  let ?e = "3602879701896397 / 4503599627370496 :: real"
  let ?q = "6755399441055745 / 2251799813685248 :: real"
  have ts: "to_double ?s = ?s"
    by (subst to_double_eval [of "-3"]) (simp_all add: round_half_even_def Let_def)
  have te: "to_double ?e = ?e"
    by (subst to_double_eval [of "-1"]) (simp_all add: round_half_even_def Let_def)
  have sub: "fsub ?e ?s = ?m"
    unfolding fsub_def
    by (subst to_double_eval [of "-1"]) (simp_all add: round_half_even_def Let_def)
  have dv: "fdiv ?m ?s = ?q"
    unfolding fdiv_def
    by (subst to_double_eval [of 1]) (simp_all add: round_half_even_def Let_def)
  have nx: "fadd ?s ?s = ?s2"
    unfolding fadd_def
    by (subst to_double_eval [of "-2"]) (simp_all add: round_half_even_def Let_def)
  have dl: "fsub ?s2 ?s = ?s"
    unfolding fsub_def
    by (subst to_double_eval [of "-3"]) (simp_all add: round_half_even_def Let_def)
  have m2: "fmul 2 ?s = ?s2"
    unfolding fmul_def
    by (subst to_double_eval [of "-2"]) (simp_all add: round_half_even_def Let_def)
  have a2: "fadd ?s ?s2 = ?m"
    unfolding fadd_def
    by (subst to_double_eval [of "-1"]) (simp_all add: round_half_even_def Let_def)
  have m3: "fmul 3 ?s = ?m"
    unfolding fmul_def
    by (subst to_double_eval [of "-1"]) (simp_all add: round_half_even_def Let_def)
  have a3: "fadd ?s ?m = ?e"
    unfolding fadd_def
    by (subst to_double_eval [of "-1"]) (simp_all add: round_half_even_def Let_def)
  have len: "\<lceil>fdiv (fsub ?e ?s) ?s\<rceil> = 4"
    unfolding sub dv by simp
  have i0: "arange_item ?s ?s 0 = ?s"
    by (simp add: arange_item_def)
  have i1: "arange_item ?s ?s 1 = ?s2"
    unfolding arange_item_def Let_def nx by simp
  have i2: "arange_item ?s ?s 2 = ?m"
    unfolding arange_item_def Let_def nx dl by (simp add: m2 a2)
  have i3: "arange_item ?s ?s 3 = ?e"
    unfolding arange_item_def Let_def nx dl by (simp add: to_double_numeral m3 a3)
  have u: "[0..<nat 4] = [0, 1, 2, 3]"
    by (simp add: upt_rec)
  have "np_arange ?s ?e ?s = Inr (map (arange_item ?s ?s) [0..<nat 4])"
    unfolding np_arange_def Let_def ts te len by simp
  then have a: "np_arange ?s ?e ?s = Inr [?s, ?s2, ?m, ?e]"
    unfolding u by (simp only: list.map i0 i1 i2 i3)
  have c: "\<lceil>(?e - ?s) / ?s\<rceil> = 3" by simp
  have lt: "?s < ?e" by simp
  from lt ts te a c show ?thesis by blast
qed

text \<open>
  Claim C4. With radius 3 the series \<open>[5, 2]\<close> yields one ingress, at index 1, and no
  egress; the series \<open>[2, 5]\<close> yields one egress, at index 1, and no ingress. In general,
  when a series of two samples yields an ingress, it yields it at index 1 with no egress, and
  the reversed series yields an egress at index 1 and no ingress.
\<close>

theorem crossing_detection_symmetric:
  "where_plus_1 (ing_mask 3 [5, 2]) = [1] \<and> where_plus_1 (egr_mask 3 [5, 2]) = []
   \<and> where_plus_1 (egr_mask 3 [2, 5]) = [1] \<and> where_plus_1 (ing_mask 3 [2, 5]) = []
   \<and> (where_plus_1 (ing_mask radius [a, b]) \<noteq> [] \<longrightarrow>
        where_plus_1 (ing_mask radius [a, b]) = [1]
      \<and> where_plus_1 (egr_mask radius [a, b]) = []
      \<and> where_plus_1 (egr_mask radius (rev [a, b])) = [1]
      \<and> where_plus_1 (ing_mask radius (rev [a, b])) = [])"
  by auto

theorem crossing_detection_symmetric_witness:
  "where_plus_1 (ing_mask 3 [5, 2]) \<noteq> []
   \<and> where_plus_1 (egr_mask 3 (rev [5, 2])) = [1]
   \<and> where_plus_1 (ing_mask 3 (rev [5, 2])) = []"
  using crossing_detection_symmetric [of 3 5 2] by simp

lemma example_compute:
  "compute_tangent_params example_spice t earth_id =
     (if t = 2 then None
      else Some (t, if t = 1 \<or> t = 4 then 3000 else 4000,
                 if t = 1 \<or> t = 4 then (3000, 0, 0) else (4000, 0, 0), 0))"
  by (simp add: compute_tangent_params_def example_spice_def earth_id_def frame_def
      tgo_hga_id_def mars_id_def rad2deg_def Let_def)

lemma example_valid:
  "valid_of (executor_map (\<lambda>et. compute_tangent_params example_spice et earth_id)
       [0, 1, 2, 3, 4, 5, 6])
   = [(0, 4000, (4000, 0, 0), 0), (1, 3000, (3000, 0, 0), 0), (3, 4000, (4000, 0, 0), 0),
      (4, 3000, (3000, 0, 0), 0), (5, 4000, (4000, 0, 0), 0), (6, 4000, (4000, 0, 0), 0)]"
  by (simp add: valid_of_def executor_map_def example_compute)

lemma example_where:
  "where_plus_1 [True, False, True, False, False] = [1, 3]"
  "where_plus_1 [False, True, False, True, False] = [2, 4]"
  by (simp_all add: where_plus_1_def upt_rec)

lemma example_row:
  "events_at example_spice et_vals tanpts szas idxs =
     Some (map (\<lambda>idx. (et_vals ! idx, 0, 0, szas ! idx, 0)) idxs)"
  by (induction idxs)
     (simp_all add: example_spice_def degrees_def mod360_def Let_def del: linalg_norm.simps)

lemma example_frame:
  "data_frame example_spice rows =
     Some (map (\<lambda>(t, lon, lat, sza, ls).
             \<lparr> ET = t, Longitude = lon, Latitude = lat, SZA = sza, Ls = ls, UTC = ''UTC'' \<rparr>) rows)"
  by (induction example_spice rows rule: data_frame.induct)
     (simp_all add: example_spice_def)

lemma example_scan:
  "scan example_spice earth_id [0, 1, 2, 3, 4, 5, 6] =
     Inr ([\<lparr> ET = 1, Longitude = 0, Latitude = 0, SZA = 0, Ls = 0, UTC = ''UTC'' \<rparr>,
           \<lparr> ET = 4, Longitude = 0, Latitude = 0, SZA = 0, Ls = 0, UTC = ''UTC'' \<rparr>],
          [\<lparr> ET = 3, Longitude = 0, Latitude = 0, SZA = 0, Ls = 0, UTC = ''UTC'' \<rparr>,
           \<lparr> ET = 5, Longitude = 0, Latitude = 0, SZA = 0, Ls = 0, UTC = ''UTC'' \<rparr>])"
  unfolding scan_def Let_def example_valid
  by (simp add: ing_mask_def egr_mask_def MARS_RADIUS_def example_where example_row example_frame
      del: events_at.simps data_frame.simps)

text \<open>
  Claim C5. For a scan within its contract (\<open>step > 0\<close>, or \<open>start_et \<le> end_et\<close>) the
  valid samples are in non-decreasing order of their epochs when the crossing reduction
  starts, and when the scan returns, the ET column of the ingress table and the ET column of
  the egress table are non-decreasing. The function has no sorting step: \<open>np.arange\<close>
  builds the epochs in non-decreasing order, also in double arithmetic, and
  \<open>executor.map\<close> returns the results in that order.
\<close>

theorem events_ordered_by_epoch:
  assumes "0 < step \<or> start_et \<le> end_et"
  shows "(np_arange start_et end_et step = Inr et_list \<longrightarrow>
            sorted (map fst (valid_of
              (executor_map (\<lambda>et. compute_tangent_params sp et gs_id) et_list))))
       \<and> (find_occultations_parallel sp gs_id start_et end_et step n_procs = Inr (df_ing, df_egr)
            \<longrightarrow> sorted (map ET df_ing) \<and> sorted (map ET df_egr))"
proof (intro conjI impI)
  assume "np_arange start_et end_et step = Inr et_list"
  from np_arange_sorted [OF assms this]
  show "sorted (map fst (valid_of
          (executor_map (\<lambda>et. compute_tangent_params sp et gs_id) et_list)))"
    by (rule valid_of_sorted)
next
  assume f: "find_occultations_parallel sp gs_id start_et end_et step n_procs = Inr (df_ing, df_egr)"
  then obtain ets where a: "np_arange start_et end_et step = Inr ets"
    and s: "scan sp gs_id ets = Inr (df_ing, df_egr)"
    by (auto simp: find_occultations_parallel_def split: sum.splits if_splits)
  have "sorted (map fst (valid_of (executor_map (\<lambda>et. compute_tangent_params sp et gs_id) ets)))"
    using np_arange_sorted [OF assms a] by (rule valid_of_sorted)
  from scan_sorted [OF this s]
  show "sorted (map ET df_ing)" "sorted (map ET df_egr)" by simp_all
qed

theorem events_ordered_by_epoch_witness:
  "find_occultations_parallel example_spice earth_id 0 7 1 4 =
     Inr ([\<lparr> ET = 1, Longitude = 0, Latitude = 0, SZA = 0, Ls = 0, UTC = ''UTC'' \<rparr>,
           \<lparr> ET = 4, Longitude = 0, Latitude = 0, SZA = 0, Ls = 0, UTC = ''UTC'' \<rparr>],
          [\<lparr> ET = 3, Longitude = 0, Latitude = 0, SZA = 0, Ls = 0, UTC = ''UTC'' \<rparr>,
           \<lparr> ET = 5, Longitude = 0, Latitude = 0, SZA = 0, Ls = 0, UTC = ''UTC'' \<rparr>])
   \<and> sorted (map ET [\<lparr> ET = 1, Longitude = 0, Latitude = 0, SZA = 0, Ls = 0, UTC = ''UTC'' \<rparr>,
           \<lparr> ET = 4, Longitude = 0, Latitude = 0, SZA = 0, Ls = 0, UTC = ''UTC'' \<rparr>])
   \<and> sorted (map ET [\<lparr> ET = 3, Longitude = 0, Latitude = 0, SZA = 0, Ls = 0, UTC = ''UTC'' \<rparr>,
           \<lparr> ET = 5, Longitude = 0, Latitude = 0, SZA = 0, Ls = 0, UTC = ''UTC'' \<rparr>])
   \<and> sorted (map fst (valid_of (executor_map
         (\<lambda>et. compute_tangent_params example_spice et earth_id) [0, 1, 2, 3, 4, 5, 6])))"
proof -
  have h: "(0 :: real) < 1 \<or> (0 :: real) \<le> 7" by simp
  have f: "find_occultations_parallel example_spice earth_id 0 7 1 4 =
     Inr ([\<lparr> ET = 1, Longitude = 0, Latitude = 0, SZA = 0, Ls = 0, UTC = ''UTC'' \<rparr>,
           \<lparr> ET = 4, Longitude = 0, Latitude = 0, SZA = 0, Ls = 0, UTC = ''UTC'' \<rparr>],
          [\<lparr> ET = 3, Longitude = 0, Latitude = 0, SZA = 0, Ls = 0, UTC = ''UTC'' \<rparr>,
           \<lparr> ET = 5, Longitude = 0, Latitude = 0, SZA = 0, Ls = 0, UTC = ''UTC'' \<rparr>])"
    by (simp add: find_occultations_parallel_def example_arange example_scan)
  from events_ordered_by_epoch [OF h, of "[0, 1, 2, 3, 4, 5, 6]" example_spice earth_id 4] f
    example_arange
  show ?thesis by blast
qed

text \<open>
  Claim C6. When the position query of the ground station, the tangent-point query or the
  position query of the Sun raises at an epoch, \<open>compute_tangent_params\<close> returns
  \<open>None\<close> there; the epoch leaves no sample in the valid list, and the scan gives what
  it gives on the other epochs alone. When one of the other epochs has a sample and
  \<open>lspcn\<close> and \<open>et2utc\<close> do not raise, the scan returns its two tables.
\<close>

theorem geometry_failure_recovered_locally:
  assumes "spkpos sp gs_id et frame ''CN+S'' tgo_hga_id = None
     \<or> (\<exists>ray. spkpos sp gs_id et frame ''CN+S'' tgo_hga_id = Some ray
           \<and> tangpt sp ''ELLIPSOID'' ''MARS'' et frame ''CN+S'' ''TANGENT POINT''
                 tgo_hga_id frame ray = None)
     \<or> spkpos sp ''SUN'' et frame ''NONE'' mars_id = None"
  shows "compute_tangent_params sp et gs_id = None
     \<and> valid_of (executor_map (\<lambda>t. compute_tangent_params sp t gs_id) (xs @ et # ys))
         = valid_of (executor_map (\<lambda>t. compute_tangent_params sp t gs_id) (xs @ ys))
     \<and> scan sp gs_id (xs @ et # ys) = scan sp gs_id (xs @ ys)
     \<and> ((\<exists>t \<in> set (xs @ ys). compute_tangent_params sp t gs_id \<noteq> None)
          \<and> (\<forall>t. lspcn sp ''MARS'' t ''LT+S'' \<noteq> None)
          \<and> (\<forall>t. et2utc sp t ''ISOC'' 3 \<noteq> None)
        \<longrightarrow> (\<exists>df_ing df_egr. scan sp gs_id (xs @ et # ys) = Inr (df_ing, df_egr)))"
proof -
  from assms have n: "compute_tangent_params sp et gs_id = None"
    by (auto simp: compute_tangent_params_def Let_def split: option.splits)
  have v: "valid_of (executor_map (\<lambda>t. compute_tangent_params sp t gs_id) (xs @ et # ys))
         = valid_of (executor_map (\<lambda>t. compute_tangent_params sp t gs_id) (xs @ ys))"
    using n by (simp add: valid_of_def executor_map_def)
  have s: "scan sp gs_id (xs @ et # ys) = scan sp gs_id (xs @ ys)"
    using n by (rule scan_drops_failed_epoch)
  have r: "\<exists>df_ing df_egr. scan sp gs_id (xs @ et # ys) = Inr (df_ing, df_egr)"
    if "(\<exists>t \<in> set (xs @ ys). compute_tangent_params sp t gs_id \<noteq> None)
          \<and> (\<forall>t. lspcn sp ''MARS'' t ''LT+S'' \<noteq> None)
          \<and> (\<forall>t. et2utc sp t ''ISOC'' 3 \<noteq> None)"
    unfolding s using that scan_returns [of "xs @ ys" sp gs_id] by blast
  from n v s r show ?thesis by blast
qed

theorem geometry_failure_recovered_locally_witness:
  "compute_tangent_params example_spice 2 earth_id = None
   \<and> scan example_spice earth_id ([0, 1] @ 2 # [3, 4, 5, 6])
       = scan example_spice earth_id ([0, 1] @ [3, 4, 5, 6])
   \<and> (\<exists>df_ing df_egr. scan example_spice earth_id ([0, 1] @ 2 # [3, 4, 5, 6])
         = Inr (df_ing, df_egr))"
proof -
  have a: "spkpos example_spice earth_id 2 frame ''CN+S'' tgo_hga_id = None
     \<or> (\<exists>ray. spkpos example_spice earth_id 2 frame ''CN+S'' tgo_hga_id = Some ray
           \<and> tangpt example_spice ''ELLIPSOID'' ''MARS'' 2 frame ''CN+S'' ''TANGENT POINT''
                 tgo_hga_id frame ray = None)
     \<or> spkpos example_spice ''SUN'' 2 frame ''NONE'' mars_id = None"
    by (simp add: example_spice_def earth_id_def)
  have b: "(\<exists>t \<in> set ([0, 1] @ [3, 4, 5, 6]). compute_tangent_params example_spice t earth_id \<noteq> None)
          \<and> (\<forall>t. lspcn example_spice ''MARS'' t ''LT+S'' \<noteq> None)
          \<and> (\<forall>t. et2utc example_spice t ''ISOC'' 3 \<noteq> None)"
    by (simp add: example_compute) (simp add: example_spice_def)
  from geometry_failure_recovered_locally [OF a, of "[0, 1]" "[3, 4, 5, 6]"] b
  show ?thesis by blast
qed

text \<open>
  Claim C9. When every epoch of the list yields a geometry failure the valid list is empty
  and the scan ends with the \<open>ValueError\<close> of the unpacking; it does not return two empty
  tables. So does \<open>find_occultations_parallel\<close> on a range whose epochs all fail.
\<close>

theorem all_failed_scan_raises:
  assumes "\<forall>et \<in> set et_list. compute_tangent_params sp et gs_id = None"
  shows "scan sp gs_id et_list = Inl ValueError
     \<and> scan sp gs_id et_list \<noteq> Inr ([], [])
     \<and> (np_arange start_et end_et step = Inr et_list \<and> 0 < n_procs \<longrightarrow>
          find_occultations_parallel sp gs_id start_et end_et step n_procs = Inl ValueError)"
proof -
  have s: "scan sp gs_id et_list = Inl ValueError"
    using assms by (rule scan_all_failed)
  then show ?thesis
    by (simp add: find_occultations_parallel_def)
qed

theorem all_failed_scan_raises_witness:
  "scan example_spice earth_id [2] = Inl ValueError
   \<and> find_occultations_parallel example_spice earth_id 2 3 1 4 = Inl ValueError"
proof -
  have a: "\<forall>et \<in> set [2]. compute_tangent_params example_spice et earth_id = None"
    by (simp add: example_compute)
  have b: "np_arange 2 3 1 = Inr [2]"
    by (rule example_arange_one)
  from all_failed_scan_raises [OF a, of 2 3 1 4] b
  show ?thesis by simp
qed

end
